theory Spec2Isabelle
  imports Main "HOL-Library.Word" "HOL-Library.Multiset"
begin

unbundle bit_operations_syntax

section \<open>The SPU RAM allocator of snd\_mem.c\<close>

text \<open>
  The file \<^verbatim>\<open>kernel/arch/dreamcast/sound/snd_mem.c\<close> keeps a tail queue of block
  records in main memory; each record describes a range of the 2 MiB sound RAM.
  The queue is modelled as a list in queue order, a pointer into the queue as an
  index into the list. \<^verbatim>\<open>uint32\<close> and \<^verbatim>\<open>size_t\<close> are 32 bits on the SH-4, so both
  are \<open>32 word\<close> and every addition and subtraction wraps as in the C code.
\<close>

subsection \<open>Data model\<close>

type_synonym uint32 = "32 word"

text \<open>\<^verbatim>\<open>snd_block_t\<close>: the queue entry is the position in the list; the field
  \<^verbatim>\<open>size\<close> is named \<open>size_blk\<close> here, \<^verbatim>\<open>inuse\<close> (only ever 0 or 1) is a boolean.\<close>

record snd_block =
  addr :: uint32
  size_blk :: uint32
  inuse :: bool

text \<open>The file's static variables \<^verbatim>\<open>initted\<close> and \<^verbatim>\<open>pool\<close>.\<close>

record pool_state =
  initted :: bool
  pool :: "snd_block list"

text \<open>The static initialisers: \<^verbatim>\<open>initted = 0\<close>, \<^verbatim>\<open>pool = {0}\<close>.\<close>

definition boot :: pool_state where
  "boot = \<lparr>initted = False, pool = []\<rparr>"

text \<open>
  What a call does besides returning: setting \<^verbatim>\<open>errno\<close>, and the \<^verbatim>\<open>dbglog(DBG_ERROR, ...)\<close>
  calls with the value they print. The \<^verbatim>\<open>DBG_DEBUG\<close> messages are guarded by
  \<^verbatim>\<open>__is_defined(SNDMEMDEBUG)\<close> with \<^verbatim>\<open>SNDMEMDEBUG\<close> defined as 0 and are never printed.
\<close>

datatype errno = EAGAIN | ENOMEM

datatype event =
    Set_errno errno
  | Log_no_chunks uint32        \<comment> \<open>"snd\_mem\_malloc: no chunks big enough for alloc(\%d)"\<close>
  | Log_no_main_memory uint32   \<comment> \<open>"snd\_mem\_malloc: not enough main memory to alloc(\%d)"\<close>
  | Log_free_nonexistent uint32 \<comment> \<open>"snd\_mem\_free: attempt to free non-existent block at \%08lx"\<close>

subsection \<open>Rounding to the 32-byte unit\<close>

text \<open>\<^verbatim>\<open>(x + 0x1f) & ~0x1f\<close> on a 32-bit unsigned value.\<close>

definition align32 :: "uint32 \<Rightarrow> uint32" where
  "align32 x = (x + 0x1f) AND NOT 0x1f"

subsection \<open>snd\_mem\_shutdown and snd\_mem\_init\<close>

text \<open>
  Every function takes the outcome of its \<^verbatim>\<open>spinlock_lock_irqsafe\<close> call as a boolean
  (\<open>True\<close>: the lock was taken), and the outcome of its call to the C library's
  \<^verbatim>\<open>malloc\<close> likewise (\<open>True\<close>: a record was obtained).

  \<^verbatim>\<open>snd_mem_shutdown\<close> frees every record and clears \<^verbatim>\<open>initted\<close>; the queue head is
  left dangling in C and is never read again before \<^verbatim>\<open>TAILQ_INIT\<close>, the model
  empties the list.
\<close>

definition snd_mem_shutdown :: "bool \<Rightarrow> pool_state \<Rightarrow> pool_state" where
  "snd_mem_shutdown lock_ok st =
     (if \<not> initted st then st
      else if \<not> lock_ok then st
      else st\<lparr>initted := False, pool := []\<rparr>)"

text \<open>The result is \<open>None\<close> for the return value 0, and \<open>Some e\<close> for the return
  value -1 with \<^verbatim>\<open>errno\<close> set to \<open>e\<close>.\<close>

definition snd_mem_init ::
  "uint32 \<Rightarrow> bool \<Rightarrow> bool \<Rightarrow> bool \<Rightarrow> pool_state \<Rightarrow> errno option \<times> pool_state" where
  "snd_mem_init reserve shutdown_lock_ok lock_ok mem_ok st =
     (let st1 = (if initted st then snd_mem_shutdown shutdown_lock_ok st else st) in
      if \<not> lock_ok then (Some EAGAIN, st1)
      else
        let reserve' = align32 reserve;
            st2 = st1\<lparr>pool := []\<rparr>
        in if \<not> mem_ok then (Some ENOMEM, st2)
           else (None,
                 st2\<lparr>pool := [\<lparr>addr = reserve', size_blk = 2 * 1024 * 1024 - reserve',
                                 inuse = False\<rparr>],
                     initted := True\<rparr>))"

subsection \<open>snd\_mem\_malloc\<close>

text \<open>
  The \<^verbatim>\<open>TAILQ_FOREACH\<close> loop of \<^verbatim>\<open>snd_mem_malloc\<close>: the accumulator is the pair
  \<^verbatim>\<open>(best_size, best)\<close>, \<^verbatim>\<open>best\<close> being the index of the chosen block; \<open>i\<close> is the
  index of the head of the list still to visit.
\<close>

fun scan_best ::
  "uint32 \<Rightarrow> snd_block list \<Rightarrow> nat \<Rightarrow> uint32 \<times> nat option \<Rightarrow> uint32 \<times> nat option" where
  "scan_best sz [] i acc = acc"
| "scan_best sz (e # es) i (best_size, best) =
     (if size_blk e \<ge> sz \<and> size_blk e < best_size \<and> \<not> inuse e
      then scan_best sz es (Suc i) (size_blk e, Some i)
      else scan_best sz es (Suc i) (best_size, best))"

text \<open>The block at index \<open>i\<close> has exactly the wanted size: \<^verbatim>\<open>best->inuse = 1\<close>.\<close>

definition perfect_fit :: "nat \<Rightarrow> snd_block list \<Rightarrow> snd_block list" where
  "perfect_fit i p = p[i := (p ! i)\<lparr>inuse := True\<rparr>]"

text \<open>
  "Break it up into two chunks": a new record \<^verbatim>\<open>e\<close> for the rest is inserted after
  the block at index \<open>i\<close>, which is cut to \<open>sz\<close> bytes and marked in use.
\<close>

definition split_block :: "nat \<Rightarrow> uint32 \<Rightarrow> snd_block list \<Rightarrow> snd_block list" where
  "split_block i sz p =
     (let best = p ! i;
          e = \<lparr>addr = addr best + sz, size_blk = size_blk best - sz, inuse = False\<rparr>
      in take i p @ [best\<lparr>size_blk := sz, inuse := True\<rparr>, e] @ drop (Suc i) p)"

text \<open>
  The result is \<open>None\<close> when \<^verbatim>\<open>assert_msg(initted, ...)\<close> fails and the program stops,
  otherwise the returned offset, the events of the call and the new state.
\<close>

definition snd_mem_malloc ::
  "uint32 \<Rightarrow> bool \<Rightarrow> bool \<Rightarrow> pool_state \<Rightarrow> (uint32 \<times> event list \<times> pool_state) option" where
  "snd_mem_malloc sz lock_ok mem_ok st =
     (if \<not> initted st then None
      else if sz = 0 then Some (0, [], st)
      else if \<not> lock_ok then Some (0, [Set_errno EAGAIN], st)
      else
        let sz' = align32 sz in
        case snd (scan_best sz' (pool st) 0 (4 * 1024 * 1024, None)) of
          None \<Rightarrow> Some (0, [Log_no_chunks sz'], st)
        | Some i \<Rightarrow>
            let best = pool st ! i in
            if size_blk best = sz'
            then Some (addr best, [], st\<lparr>pool := perfect_fit i (pool st)\<rparr>)
            else if \<not> mem_ok then Some (0, [Log_no_main_memory sz'], st)
            else Some (addr best, [], st\<lparr>pool := split_block i sz' (pool st)\<rparr>))"

subsection \<open>snd\_mem\_free\<close>

text \<open>The lookup loop: the index of the first block whose address is \<open>a\<close>.\<close>

fun find_addr :: "uint32 \<Rightarrow> snd_block list \<Rightarrow> nat option" where
  "find_addr a [] = None"
| "find_addr a (e # es) = (if addr e = a then Some 0 else map_option Suc (find_addr a es))"

text \<open>
  Both coalescing steps add the size of a block to the block before it and remove it
  from the queue: \<open>absorb_next j\<close> does so for the blocks at \<open>j\<close> and \<open>j + 1\<close>.
\<close>

definition absorb_next :: "nat \<Rightarrow> snd_block list \<Rightarrow> snd_block list" where
  "absorb_next j p =
     take j p @ [(p ! j)\<lparr>size_blk := size_blk (p ! j) + size_blk (p ! Suc j)\<rparr>] @ drop (j + 2) p"

text \<open>
  The forward step, "can we coalesce with the block in front of us", for the current
  block at index \<open>j\<close>.
\<close>

definition coalesce_next :: "nat \<Rightarrow> snd_block list \<Rightarrow> snd_block list" where
  "coalesce_next j p =
     (if Suc j < length p \<and> \<not> inuse (p ! Suc j) then absorb_next j p else p)"

text \<open>
  The part of \<^verbatim>\<open>snd_mem_free\<close> after the lookup, for the block found at index \<open>i\<close>:
  the block is marked unused; if it has a predecessor and that is unused, the
  predecessor absorbs it and becomes the current block; then the forward step.
\<close>

definition free_block :: "nat \<Rightarrow> snd_block list \<Rightarrow> snd_block list" where
  "free_block i p =
     (let p1 = p[i := (p ! i)\<lparr>inuse := False\<rparr>]
      in if 0 < i \<and> \<not> inuse (p1 ! (i - 1))
         then coalesce_next (i - 1) (absorb_next (i - 1) p1)
         else coalesce_next i p1)"

text \<open>
  \<open>None\<close> when the assertion on \<^verbatim>\<open>initted\<close> fails. The message for a block that is not
  found prints \<^verbatim>\<open>(uint32)e\<close>, which is the null pointer there.
\<close>

definition snd_mem_free ::
  "uint32 \<Rightarrow> bool \<Rightarrow> pool_state \<Rightarrow> (event list \<times> pool_state) option" where
  "snd_mem_free a lock_ok st =
     (if \<not> initted st then None
      else if a = 0 then Some ([], st)
      else if \<not> lock_ok then Some ([], st)
      else case find_addr a (pool st) of
             None \<Rightarrow> Some ([Log_free_nonexistent 0], st)
           | Some i \<Rightarrow> Some ([], st\<lparr>pool := free_block i (pool st)\<rparr>))"

subsection \<open>snd\_mem\_available\<close>

text \<open>The loop of \<^verbatim>\<open>snd_mem_available\<close>, with \<^verbatim>\<open>largest\<close> as the accumulator.\<close>

fun scan_largest :: "snd_block list \<Rightarrow> uint32 \<Rightarrow> uint32" where
  "scan_largest [] largest = largest"
| "scan_largest (e # es) largest =
     (if size_blk e > largest then scan_largest es (size_blk e) else scan_largest es largest)"

definition snd_mem_available :: "bool \<Rightarrow> pool_state \<Rightarrow> uint32 \<times> event list" where
  "snd_mem_available lock_ok st =
     (if \<not> initted st then (0, [])
      else if \<not> lock_ok then (0, [Set_errno EAGAIN])
      else (scan_largest (pool st) 0, []))"

subsection \<open>Sequences of calls\<close>

text \<open>
  A call of one of the five public functions, with the outcomes of its lock and
  \<^verbatim>\<open>malloc\<close> attempts. \<open>exec\<close> gives the state after the call, or \<open>None\<close> when an
  assertion stops the program; \<open>run\<close> performs a sequence of calls.
\<close>

datatype call =
    Init uint32 bool bool bool
  | Shutdown bool
  | Malloc uint32 bool bool
  | Free uint32 bool
  | Available bool

fun exec :: "call \<Rightarrow> pool_state \<Rightarrow> pool_state option" where
  "exec (Init reserve shutdown_lock_ok lock_ok mem_ok) st =
     Some (snd (snd_mem_init reserve shutdown_lock_ok lock_ok mem_ok st))"
| "exec (Shutdown lock_ok) st = Some (snd_mem_shutdown lock_ok st)"
| "exec (Malloc sz lock_ok mem_ok) st =
     (case snd_mem_malloc sz lock_ok mem_ok st of
        None \<Rightarrow> None
      | Some (p, ev, st') \<Rightarrow> Some st')"
| "exec (Free a lock_ok) st =
     (case snd_mem_free a lock_ok st of
        None \<Rightarrow> None
      | Some (ev, st') \<Rightarrow> Some st')"
| "exec (Available lock_ok) st = Some st"

fun run :: "call list \<Rightarrow> pool_state \<Rightarrow> pool_state option" where
  "run [] st = Some st"
| "run (c # cs) st = (case exec c st of None \<Rightarrow> None | Some st' \<Rightarrow> run cs st')"

text \<open>The calls that neither create nor destroy the pool.\<close>

fun keeps_pool :: "call \<Rightarrow> bool" where
  "keeps_pool (Init reserve shutdown_lock_ok lock_ok mem_ok) = False"
| "keeps_pool (Shutdown lock_ok) = False"
| "keeps_pool c = True"

text \<open>
  The offsets that the \<^verbatim>\<open>snd_mem_malloc\<close> calls of a sequence return, in order: what a
  caller has been handed.
\<close>

fun returned_by :: "call \<Rightarrow> pool_state \<Rightarrow> uint32 list" where
  "returned_by (Malloc sz lock_ok mem_ok) st =
     (case snd_mem_malloc sz lock_ok mem_ok st of
        None \<Rightarrow> []
      | Some (p, ev, st') \<Rightarrow> [p])"
| "returned_by c st = []"

fun returned :: "call list \<Rightarrow> pool_state \<Rightarrow> uint32 list" where
  "returned [] st = []"
| "returned (c # cs) st =
     (case exec c st of
        None \<Rightarrow> returned_by c st
      | Some st' \<Rightarrow> returned_by c st @ returned cs st')"

subsection \<open>Writing down concrete ledgers\<close>

definition blk :: "uint32 \<Rightarrow> uint32 \<Rightarrow> bool \<Rightarrow> snd_block" where
  "blk a s u = \<lparr>addr = a, size_blk = s, inuse = u\<rparr>"

definition ledger :: "snd_block list \<Rightarrow> pool_state" where
  "ledger p = \<lparr>initted = True, pool = p\<rparr>"

subsection \<open>The Ledger invariants of the specification\<close>

text \<open>
  Coverage: each extent ends where the next one begins. The sum is taken in the
  natural numbers, so an extent that wraps past \<open>2^32\<close> does not satisfy it, and the
  addresses of a ledger that satisfies it are ascending.
\<close>

fun coverage :: "snd_block list \<Rightarrow> bool" where
  "coverage [] = True"
| "coverage [e] = True"
| "coverage (e # e' # es) =
     (unat (addr e) + unat (size_blk e) = unat (addr e') \<and> coverage (e' # es))"

definition total_size :: "snd_block list \<Rightarrow> nat" where
  "total_size p = sum_list (map (\<lambda>e. unat (size_blk e)) p)"

text \<open>
  Conservation: the sizes sum to the capacity of 2 MiB minus the reserved base \<open>r\<close>
  (the rounded \<^verbatim>\<open>reserve\<close> of \<^verbatim>\<open>snd_mem_init\<close>), as integers.
\<close>

definition conservation :: "uint32 \<Rightarrow> snd_block list \<Rightarrow> bool" where
  "conservation r p = (int (total_size p) = 2097152 - int (unat r))"

definition alignment :: "snd_block list \<Rightarrow> bool" where
  "alignment p = list_all (\<lambda>e. 32 dvd unat (addr e) \<and> 32 dvd unat (size_blk e)) p"

fun no_adjacent_free :: "snd_block list \<Rightarrow> bool" where
  "no_adjacent_free [] = True"
| "no_adjacent_free [e] = True"
| "no_adjacent_free (e # e' # es) = ((inuse e \<or> inuse e') \<and> no_adjacent_free (e' # es))"

text \<open>The first extent of the ledger begins at the reserved base.\<close>

fun based :: "uint32 \<Rightarrow> snd_block list \<Rightarrow> bool" where
  "based r [] = False"
| "based r (e # es) = (addr e = r)"

definition ledger_inv :: "uint32 \<Rightarrow> snd_block list \<Rightarrow> bool" where
  "ledger_inv r p = (based r p \<and> coverage p \<and> conservation r p \<and> alignment p)"

text \<open>The extents from \<open>a\<close> on: the first begins at \<open>a\<close>, each next one where the
  one before ends.\<close>

fun chain :: "nat \<Rightarrow> snd_block list \<Rightarrow> bool" where
  "chain a [] = True"
| "chain a (e # es) = (unat (addr e) = a \<and> chain (a + unat (size_blk e)) es)"

text \<open>The addresses of the extents in use.\<close>

definition inuse_addrs :: "snd_block list \<Rightarrow> uint32 set" where
  "inuse_addrs p = set (map addr (filter inuse p))"

subsection \<open>Best fit, in the words of the specification\<close>

text \<open>
  A candidate for a request of \<open>s\<close> bytes is a free extent of at least \<open>s\<close> bytes;
  the scan of \<^verbatim>\<open>snd_mem_malloc\<close> starts from \<^verbatim>\<open>best_size = 4 * 1024 * 1024\<close> and only
  takes an extent below it. The best fit is a candidate no larger than any other
  candidate and strictly smaller than every candidate before it in the ledger.
\<close>

definition candidate :: "uint32 \<Rightarrow> snd_block \<Rightarrow> bool" where
  "candidate s e = (\<not> inuse e \<and> s \<le> size_blk e \<and> size_blk e < 4 * 1024 * 1024)"

definition best_fit :: "uint32 \<Rightarrow> snd_block list \<Rightarrow> nat \<Rightarrow> bool" where
  "best_fit s p i =
     (i < length p \<and> candidate s (p ! i)
      \<and> list_all (\<lambda>e. candidate s e \<longrightarrow> size_blk (p ! i) \<le> size_blk e) p
      \<and> list_all (\<lambda>e. candidate s e \<longrightarrow> size_blk (p ! i) < size_blk e) (take i p))"

text \<open>The largest free extent, as the specification words the capacity query.\<close>

definition largest_free :: "snd_block list \<Rightarrow> nat" where
  "largest_free p = Max (insert 0 (set (map (\<lambda>e. unat (size_blk e)) (filter (\<lambda>e. \<not> inuse e) p))))"

section \<open>Arithmetic of the rounding\<close>

lemma and_not_1f: "(y::32 word) AND NOT 0x1f = push_bit 5 (drop_bit 5 y)"
proof -
  have m: "(0x1f::32 word) = mask 5" by (simp add: mask_eq_exp_minus_1)
  show ?thesis unfolding m
    by (rule bit_word_eqI) (auto simp: bit_simps)
qed

lemma unat_and_not_1f: "unat ((y::32 word) AND NOT 0x1f) = unat y div 32 * 32"
proof -
  have "unat (push_bit 5 (drop_bit 5 y)) = take_bit 32 (push_bit 5 (unat (drop_bit 5 y)))"
    by (simp add: unsigned_push_bit_eq)
  also have "unat (drop_bit 5 y) = unat y div 32"
    unfolding unat_drop_bit_eq by (simp add: drop_bit_eq_div)
  also have "take_bit 32 (push_bit 5 (unat y div 32)) = unat y div 32 * 32"
  proof -
    have "unat y < 2^32" using unsigned_less[of y] by simp
    then have "unat y div 32 * 32 < 2^32" by simp
    then show ?thesis by (simp add: push_bit_eq_mult take_bit_eq_mod)
  qed
  finally show ?thesis unfolding and_not_1f .
qed

lemma unat_align32: "unat (align32 x) = ((unat x + 31) mod 2^32) div 32 * 32"
  unfolding align32_def unat_and_not_1f by (simp add: unat_word_ariths)

lemma align32_dvd: "32 dvd unat (align32 x)"
  by (simp add: unat_align32)

lemma unat_lt_2p32: "unat (x::32 word) < 4294967296"
  using unsigned_less[of x] by simp

lemma align32_wrap: "4294967265 \<le> unat x \<Longrightarrow> align32 x = 0"
proof -
  assume a: "4294967265 \<le> unat x"
  have "unat x + 31 = 4294967296 + (unat x - 4294967265)" using a by simp
  then have "(unat x + 31) mod 4294967296 = (unat x - 4294967265) mod 4294967296"
    by (metis mod_add_self1)
  also have "\<dots> = unat x - 4294967265" using unat_lt_2p32[of x] by simp
  finally have "unat (align32 x) = (unat x - 4294967265) div 32 * 32"
    unfolding unat_align32 by simp
  also have "\<dots> = 0" using unat_lt_2p32[of x] by simp
  finally show ?thesis by (simp add: unat_eq_0)
qed

lemma align32_nowrap:
  "unat x \<le> 4294967264 \<Longrightarrow> unat (align32 x) = (unat x + 31) div 32 * 32"
  unfolding unat_align32 by simp

lemma align32_bounds:
  "unat x \<le> 4294967264 \<Longrightarrow> unat x \<le> unat (align32 x) \<and> unat (align32 x) < unat x + 32"
  using align32_nowrap[of x] by presburger

lemmas eval_defs =
  snd_mem_init_def snd_mem_malloc_def snd_mem_free_def snd_mem_available_def
  snd_mem_shutdown_def boot_def align32_def perfect_fit_def split_block_def
  free_block_def coalesce_next_def absorb_next_def blk_def ledger_def

section \<open>The scan for the best block\<close>

lemma scan_best_cases:
  "(scan_best sz es i (bs, b) = (bs, b)
      \<and> (\<forall>e\<in>set es. \<not> (sz \<le> size_blk e \<and> size_blk e < bs \<and> \<not> inuse e)))
   \<or> (\<exists>k<length es.
         scan_best sz es i (bs, b) = (size_blk (es ! k), Some (i + k))
         \<and> sz \<le> size_blk (es ! k) \<and> size_blk (es ! k) < bs \<and> \<not> inuse (es ! k)
         \<and> (\<forall>e\<in>set es. sz \<le> size_blk e \<and> \<not> inuse e \<longrightarrow> size_blk (es ! k) \<le> size_blk e)
         \<and> (\<forall>e\<in>set (take k es). sz \<le> size_blk e \<and> \<not> inuse e
               \<longrightarrow> size_blk (es ! k) < size_blk e))"
proof (induction es arbitrary: i bs b)
  case Nil
  show ?case by simp
next
  case (Cons e es)
  show ?case
  proof (cases "sz \<le> size_blk e \<and> size_blk e < bs \<and> \<not> inuse e")
    case True
    note taken = this
    from Cons.IH[of "Suc i" "size_blk e" "Some i"] show ?thesis
    proof (elim disjE exE conjE)
      assume r: "scan_best sz es (Suc i) (size_blk e, Some i) = (size_blk e, Some i)"
        and n: "\<forall>x\<in>set es. \<not> (sz \<le> size_blk x \<and> size_blk x < size_blk e \<and> \<not> inuse x)"
      have "scan_best sz (e # es) i (bs, b) = (size_blk ((e # es) ! 0), Some (i + 0))"
        using taken r by simp
      moreover have "\<forall>x\<in>set (e # es). sz \<le> size_blk x \<and> \<not> inuse x
                        \<longrightarrow> size_blk ((e # es) ! 0) \<le> size_blk x"
        using n by (auto simp: not_less)
      ultimately show ?thesis using taken
        by (intro disjI2 exI[of _ 0]) simp
    next
      fix k
      assume k: "k < length es"
        and r: "scan_best sz es (Suc i) (size_blk e, Some i) = (size_blk (es ! k), Some (Suc i + k))"
        and p: "sz \<le> size_blk (es ! k)" "size_blk (es ! k) < size_blk e" "\<not> inuse (es ! k)"
        and a: "\<forall>x\<in>set es. sz \<le> size_blk x \<and> \<not> inuse x \<longrightarrow> size_blk (es ! k) \<le> size_blk x"
        and t: "\<forall>x\<in>set (take k es). sz \<le> size_blk x \<and> \<not> inuse x
                  \<longrightarrow> size_blk (es ! k) < size_blk x"
      have "scan_best sz (e # es) i (bs, b) = (size_blk ((e # es) ! Suc k), Some (i + Suc k))"
        using taken r by simp
      moreover have "size_blk (es ! k) < bs" using p(2) taken by auto
      ultimately show ?thesis using k p a t
        by (intro disjI2 exI[of _ "Suc k"]) auto
    qed
  next
    case False
    note skipped = this
    from Cons.IH[of "Suc i" bs b] show ?thesis
    proof (elim disjE exE conjE)
      assume r: "scan_best sz es (Suc i) (bs, b) = (bs, b)"
        and n: "\<forall>x\<in>set es. \<not> (sz \<le> size_blk x \<and> size_blk x < bs \<and> \<not> inuse x)"
      show ?thesis using skipped r n by (intro disjI1) auto
    next
      fix k
      assume k: "k < length es"
        and r: "scan_best sz es (Suc i) (bs, b) = (size_blk (es ! k), Some (Suc i + k))"
        and p: "sz \<le> size_blk (es ! k)" "size_blk (es ! k) < bs" "\<not> inuse (es ! k)"
        and a: "\<forall>x\<in>set es. sz \<le> size_blk x \<and> \<not> inuse x \<longrightarrow> size_blk (es ! k) \<le> size_blk x"
        and t: "\<forall>x\<in>set (take k es). sz \<le> size_blk x \<and> \<not> inuse x
                  \<longrightarrow> size_blk (es ! k) < size_blk x"
      have "scan_best sz (e # es) i (bs, b) = (size_blk ((e # es) ! Suc k), Some (i + Suc k))"
        using skipped r by auto
      moreover have "sz \<le> size_blk e \<and> \<not> inuse e \<longrightarrow> size_blk (es ! k) < size_blk e"
        using skipped p(2) by auto
      ultimately show ?thesis using k p a t
        by (intro disjI2 exI[of _ "Suc k"]) auto
    qed
  qed
qed

lemma list_ex_candidate:
  "list_ex (candidate s) p \<longleftrightarrow> (\<exists>e\<in>set p. s \<le> size_blk e \<and> size_blk e < 4194304 \<and> \<not> inuse e)"
  by (auto simp: list_ex_iff candidate_def)

lemma scan_none:
  "snd (scan_best s p 0 (4 * 1024 * 1024, None)) = None \<longleftrightarrow> \<not> list_ex (candidate s) p"
  using scan_best_cases[of s p 0 "4 * 1024 * 1024" None]
  by (auto simp: list_ex_candidate)

lemma scan_some_best_fit:
  assumes "snd (scan_best s p 0 (4 * 1024 * 1024, None)) = Some i"
  shows "best_fit s p i"
  using scan_best_cases[of s p 0 "4 * 1024 * 1024" None] assms
  by (auto simp: best_fit_def candidate_def list_all_iff)

lemma best_fit_unique:
  assumes "best_fit s p i" and "best_fit s p j"
  shows "i = j"
proof (rule ccontr)
  assume ne: "i \<noteq> j"
  have *: "False" if a: "best_fit s p a" and b: "best_fit s p b" and lt: "a < b" for a b
  proof -
    have "p ! a \<in> set (take b p)" using lt b
      by (auto simp: best_fit_def in_set_conv_nth intro!: exI[of _ a])
    then have "size_blk (p ! b) < size_blk (p ! a)" using a b
      by (auto simp: best_fit_def list_all_iff)
    moreover have "size_blk (p ! a) \<le> size_blk (p ! b)" using a b
      by (auto simp: best_fit_def list_all_iff)
    ultimately show False by simp
  qed
  from ne consider "i < j" | "j < i" by linarith
  then show False using *[OF assms] *[OF assms(2,1)] by cases auto
qed

lemma best_fit_scan:
  assumes "best_fit s p i"
  shows "snd (scan_best s p 0 (4 * 1024 * 1024, None)) = Some i"
proof -
  have "list_ex (candidate s) p" using assms
    by (auto simp: best_fit_def list_ex_iff)
  then obtain j where "snd (scan_best s p 0 (4 * 1024 * 1024, None)) = Some j"
    using scan_none[of s p] by (cases "snd (scan_best s p 0 (4 * 1024 * 1024, None))") auto
  then show ?thesis using scan_some_best_fit[of s p j] best_fit_unique[OF assms] by simp
qed

section \<open>Lists of extents\<close>

lemma total_size_simps [simp]:
  "total_size [] = 0"
  "total_size (e # es) = unat (size_blk e) + total_size es"
  "total_size (xs @ ys) = total_size xs + total_size ys"
  by (simp_all add: total_size_def)

lemma chain_append: "chain a (xs @ ys) = (chain a xs \<and> chain (a + total_size xs) ys)"
  by (induction xs arbitrary: a) (auto simp: add.assoc)

lemma coverage_chain: "coverage p \<longleftrightarrow> (p = [] \<or> chain (unat (addr (hd p))) p)"
  by (induction p rule: coverage.induct) auto

lemma based_coverage_chain: "based r p \<and> coverage p \<longleftrightarrow> p \<noteq> [] \<and> chain (unat r) p"
  by (cases p) (auto simp: coverage_chain word_unat_eq_iff)

lemma ledger_inv_chain:
  "ledger_inv r p \<longleftrightarrow>
     p \<noteq> [] \<and> chain (unat r) p \<and> unat r + total_size p = 2097152 \<and> alignment p"
proof -
  have "conservation r p \<longleftrightarrow> unat r + total_size p = 2097152"
    unfolding conservation_def by linarith
  then show ?thesis
    unfolding ledger_inv_def using based_coverage_chain[of r p] by blast
qed

lemma alignment_simps [simp]:
  "alignment [] = True"
  "alignment (e # es) = (32 dvd unat (addr e) \<and> 32 dvd unat (size_blk e) \<and> alignment es)"
  "alignment (xs @ ys) = (alignment xs \<and> alignment ys)"
  by (auto simp: alignment_def)

lemma chain_nth:
  "chain a p \<Longrightarrow> j < length p \<Longrightarrow> unat (addr (p ! j)) = a + total_size (take j p)"
proof (induction p arbitrary: a j)
  case Nil
  then show ?case by simp
next
  case (Cons e es)
  then show ?case by (cases j) (auto simp: add.assoc)
qed

lemma total_size_take_mono: "i \<le> j \<Longrightarrow> total_size (take i p) \<le> total_size (take j p)"
proof -
  assume "i \<le> j"
  then have "take j p = take i p @ take (j - i) (drop i p)"
    by (metis le_add_diff_inverse take_add)
  then show ?thesis by simp
qed

lemma coverage_addr_mono:
  assumes "coverage p" and "i \<le> j" and "j < length p"
  shows "addr (p ! i) \<le> addr (p ! j)"
proof -
  from assms have ne: "p \<noteq> []" by auto
  with assms(1) have c: "chain (unat (addr (hd p))) p" by (simp add: coverage_chain)
  have "unat (addr (p ! i)) \<le> unat (addr (p ! j))"
    using chain_nth[OF c, of i] chain_nth[OF c, of j] total_size_take_mono[OF assms(2), of p] assms
    by simp
  then show ?thesis by (simp add: word_le_nat_alt)
qed

lemma naf_snoc:
  "no_adjacent_free (xs @ [c]) \<longleftrightarrow> no_adjacent_free xs \<and> (xs = [] \<or> inuse (last xs) \<or> inuse c)"
  by (induction xs rule: no_adjacent_free.induct) auto

lemma naf_Cons:
  "no_adjacent_free (c # ys) \<longleftrightarrow> no_adjacent_free ys \<and> (ys = [] \<or> inuse c \<or> inuse (hd ys))"
  by (cases ys) auto

lemma naf_mid:
  "no_adjacent_free (xs @ c # y # ys) \<longleftrightarrow>
     no_adjacent_free (xs @ [c]) \<and> (inuse c \<or> inuse y) \<and> no_adjacent_free (y # ys)"
  by (induction xs rule: no_adjacent_free.induct) auto

lemma naf_split:
  "no_adjacent_free (xs @ c # ys) \<longleftrightarrow>
     no_adjacent_free (xs @ [c]) \<and> no_adjacent_free ys \<and> (ys = [] \<or> inuse c \<or> inuse (hd ys))"
  by (cases ys) (auto simp: naf_mid naf_Cons)

lemma absorb_next_append:
  "absorb_next (length xs) (xs @ a # b # ys) = xs @ a\<lparr>size_blk := size_blk a + size_blk b\<rparr> # ys"
  by (simp add: absorb_next_def nth_append)

lemma coalesce_next_append:
  "coalesce_next (length xs) (xs @ c # ys) =
     (case ys of [] \<Rightarrow> xs @ [c]
      | y # ys' \<Rightarrow> if inuse y then xs @ c # ys
                    else xs @ c\<lparr>size_blk := size_blk c + size_blk y\<rparr> # ys')"
  by (cases ys) (simp_all add: coalesce_next_def absorb_next_append nth_append)

lemma free_block_first:
  "free_block 0 (e # ys) = coalesce_next 0 (e\<lparr>inuse := False\<rparr> # ys)"
  by (simp add: free_block_def)

lemma free_block_append:
  "free_block (Suc (length xs)) (xs @ o' # e # ys) =
     (if inuse o' then coalesce_next (Suc (length xs)) (xs @ o' # e\<lparr>inuse := False\<rparr> # ys)
      else coalesce_next (length xs) (xs @ o'\<lparr>size_blk := size_blk o' + size_blk e\<rparr> # ys))"
proof -
  have u: "(xs @ o' # e # ys)[Suc (length xs) := e\<lparr>inuse := False\<rparr>] = xs @ o' # e\<lparr>inuse := False\<rparr> # ys"
    by (simp add: list_update_append)
  have n: "(xs @ o' # e # ys) ! Suc (length xs) = e" by (simp add: nth_append)
  have m: "(xs @ o' # e\<lparr>inuse := False\<rparr> # ys) ! length xs = o'" by (simp add: nth_append)
  show ?thesis
    unfolding free_block_def Let_def n u
    using absorb_next_append[of xs o' "e\<lparr>inuse := False\<rparr>" ys] m by simp
qed

section \<open>The lookup and the coalescing steps\<close>

lemma find_addr_None: "find_addr a p = None \<longleftrightarrow> a \<notin> addr ` set p"
  by (induction p) auto

lemma find_addr_Some:
  "find_addr a p = Some i \<Longrightarrow>
     i < length p \<and> addr (p ! i) = a \<and> (\<forall>x\<in>set (take i p). addr x \<noteq> a)"
proof (induction p arbitrary: i)
  case Nil
  then show ?case by simp
next
  case (Cons e es)
  show ?case
  proof (cases "addr e = a")
    case True
    with Cons.prems show ?thesis by simp
  next
    case False
    with Cons.prems obtain k where k: "find_addr a es = Some k" "i = Suc k" by auto
    with Cons.IH[of k] False show ?thesis by simp
  qed
qed

lemma find_addr_append:
  "\<forall>x\<in>set xs. addr x \<noteq> a \<Longrightarrow> addr e = a \<Longrightarrow> find_addr a (xs @ e # ys) = Some (length xs)"
  by (induction xs) auto

lemma unat_le_2M: "unat (x::32 word) \<le> 2097152 \<longleftrightarrow> x \<le> 2097152"
  by (simp add: word_le_nat_alt)

lemma ledger_inv_mark:
  "ledger_inv r (xs @ e\<lparr>inuse := b\<rparr> # ys) = ledger_inv r (xs @ e # ys)"
  by (simp add: ledger_inv_chain chain_append)

lemma ledger_inv_split:
  assumes inv: "ledger_inv r (xs @ e # ys)" and le: "s \<le> size_blk e" and al: "32 dvd unat s"
  shows "ledger_inv r (xs @ [e\<lparr>size_blk := s, inuse := True\<rparr>,
                             \<lparr>addr = addr e + s, size_blk = size_blk e - s, inuse = False\<rparr>] @ ys)"
proof -
  note i = inv[unfolded ledger_inv_chain]
  from i have "chain (unat r) (xs @ e # ys)" by blast
  then have c: "chain (unat r) xs" "unat (addr e) = unat r + total_size xs"
      "chain (unat r + total_size xs + unat (size_blk e)) ys"
    by (simp_all add: chain_append)
  from i have "unat r + total_size (xs @ e # ys) = 2097152" by blast
  then have t: "unat r + (total_size xs + (unat (size_blk e) + total_size ys)) = 2097152"
    by simp
  from i have "alignment (xs @ e # ys)" by blast
  then have a: "alignment xs" "32 dvd unat (addr e)" "32 dvd unat (size_blk e)" "alignment ys"
    by simp_all
  from le have su: "unat s \<le> unat (size_blk e)" by (simp add: word_le_nat_alt)
  have sub: "unat (size_blk e - s) = unat (size_blk e) - unat s"
    using le by (simp add: unat_sub)
  have "unat (addr e) + unat s < 2 ^ 32" using c(2) t su by simp
  then have add: "unat (addr e + s) = unat (addr e) + unat s"
    by (simp add: unat_add_lem[THEN iffD1])
  have d: "32 dvd unat (size_blk e) - unat s" using a(3) al by (rule dvd_diff_nat)
  have d2: "32 dvd unat (addr e) + unat s" using a(2) al by (rule dvd_add)
  show ?thesis
    using c t a su al d d2 by (simp add: ledger_inv_chain chain_append sub add add.assoc)
qed

lemma ledger_inv_absorb:
  assumes inv: "ledger_inv r (xs @ a # b # ys)"
  shows "ledger_inv r (xs @ a\<lparr>size_blk := size_blk a + size_blk b\<rparr> # ys)"
proof -
  note i = inv[unfolded ledger_inv_chain]
  from i have "chain (unat r) (xs @ a # b # ys)" by blast
  then have c: "chain (unat r) xs" "unat (addr a) = unat r + total_size xs"
      "chain (unat r + total_size xs + unat (size_blk a) + unat (size_blk b)) ys"
    by (simp_all add: chain_append)
  from i have "unat r + total_size (xs @ a # b # ys) = 2097152" by blast
  then have t: "unat r + (total_size xs + (unat (size_blk a) + (unat (size_blk b) + total_size ys))) = 2097152"
    by simp
  from i have "alignment (xs @ a # b # ys)" by blast
  then have al: "alignment xs" "32 dvd unat (addr a)" "32 dvd unat (size_blk a)"
       "32 dvd unat (size_blk b)" "alignment ys"
    by simp_all
  have "unat (size_blk a) + unat (size_blk b) < 2 ^ 32" using t by simp
  then have add: "unat (size_blk a + size_blk b) = unat (size_blk a) + unat (size_blk b)"
    by (simp add: unat_add_lem[THEN iffD1])
  show ?thesis
    using c t al by (simp add: ledger_inv_chain chain_append add add.assoc)
qed

lemma ledger_inv_coalesce_next:
  "ledger_inv r (xs @ c # ys) \<Longrightarrow> ledger_inv r (coalesce_next (length xs) (xs @ c # ys))"
  by (auto simp: coalesce_next_append ledger_inv_absorb split: list.splits)

lemma ledger_inv_free_block:
  assumes inv: "ledger_inv r p" and i: "i < length p"
  shows "ledger_inv r (free_block i p)"
proof -
  define xs e ys where "xs = take i p" and "e = p ! i" and "ys = drop (Suc i) p"
  have p: "p = xs @ e # ys" and l: "i = length xs"
    using i by (simp_all add: xs_def e_def ys_def id_take_nth_drop[symmetric])
  show ?thesis
  proof (cases xs rule: rev_cases)
    case Nil
    with p l inv show ?thesis
      using ledger_inv_coalesce_next[of r "[]" "e\<lparr>inuse := False\<rparr>" ys]
        ledger_inv_mark[where r=r and xs="[]" and e=e and b=False and ys=ys]
      by (simp add: free_block_first)
  next
    case (snoc xs' o')
    have f: "free_block i p = 
      (if inuse o' then coalesce_next (length (xs' @ [o'])) ((xs' @ [o']) @ e\<lparr>inuse := False\<rparr> # ys)
       else coalesce_next (length xs') (xs' @ o'\<lparr>size_blk := size_blk o' + size_blk e\<rparr> # ys))"
      using free_block_append[of xs' o' e ys] p l snoc by simp
    have 1: "ledger_inv r ((xs' @ [o']) @ e\<lparr>inuse := False\<rparr> # ys)"
      using inv p snoc ledger_inv_mark[where r=r and xs="xs' @ [o']" and e=e and b=False and ys=ys] by simp
    have 2: "ledger_inv r (xs' @ o'\<lparr>size_blk := size_blk o' + size_blk e\<rparr> # ys)"
      using inv p snoc ledger_inv_absorb[of r xs' o' e ys] by simp
    show ?thesis unfolding f
      using ledger_inv_coalesce_next[OF 1] ledger_inv_coalesce_next[OF 2] by simp
  qed
qed

lemma naf_coalesce_next:
  assumes x: "no_adjacent_free (xs @ [c])" and y: "no_adjacent_free ys"
  shows "no_adjacent_free (coalesce_next (length xs) (xs @ c # ys))"
proof (cases ys)
  case Nil
  with x show ?thesis by (simp add: coalesce_next_append)
next
  case (Cons y ys')
  show ?thesis
  proof (cases "inuse y")
    case True
    with Cons x y show ?thesis by (simp add: coalesce_next_append naf_mid)
  next
    case False
    from x have "no_adjacent_free (xs @ [c\<lparr>size_blk := size_blk c + size_blk y\<rparr>])"
      by (simp add: naf_snoc)
    moreover from y Cons False have "no_adjacent_free ys'" "ys' = [] \<or> inuse (hd ys')"
      by (simp_all add: naf_Cons)
    ultimately have "no_adjacent_free (xs @ c\<lparr>size_blk := size_blk c + size_blk y\<rparr> # ys')"
      by (intro naf_split[THEN iffD2]) auto
    with Cons False show ?thesis by (simp add: coalesce_next_append)
  qed
qed

lemma naf_free_block:
  assumes naf: "no_adjacent_free p" and i: "i < length p"
  shows "no_adjacent_free (free_block i p)"
proof -
  define xs e ys where "xs = take i p" and "e = p ! i" and "ys = drop (Suc i) p"
  have p: "p = xs @ e # ys" and l: "i = length xs"
    using i by (simp_all add: xs_def e_def ys_def id_take_nth_drop[symmetric])
  from naf p have n: "no_adjacent_free (xs @ [e])" "no_adjacent_free ys"
    using naf_split[of xs e ys] by simp_all
  show ?thesis
  proof (cases xs rule: rev_cases)
    case Nil
    with p l n show ?thesis
      using naf_coalesce_next[of "[]" "e\<lparr>inuse := False\<rparr>" ys]
      by (simp add: free_block_first)
  next
    case (snoc xs' o')
    have f: "free_block i p = 
      (if inuse o' then coalesce_next (length (xs' @ [o'])) ((xs' @ [o']) @ e\<lparr>inuse := False\<rparr> # ys)
       else coalesce_next (length xs') (xs' @ o'\<lparr>size_blk := size_blk o' + size_blk e\<rparr> # ys))"
      using free_block_append[of xs' o' e ys] p l snoc by simp
    have x: "no_adjacent_free (xs' @ [o'])" using n(1) snoc by (simp add: naf_mid)
    have 1: "inuse o' \<Longrightarrow> no_adjacent_free ((xs' @ [o']) @ [e\<lparr>inuse := False\<rparr>])"
      using x by (simp add: naf_mid)
    have 2: "no_adjacent_free (xs' @ [o'\<lparr>size_blk := size_blk o' + size_blk e\<rparr>])"
      using x by (simp add: naf_snoc)
    show ?thesis unfolding f
      using naf_coalesce_next[OF 1 n(2)] naf_coalesce_next[OF 2 n(2)] by simp
  qed
qed

section \<open>The calls, case by case\<close>

lemma perfect_fit_append:
  "perfect_fit (length xs) (xs @ e # ys) = xs @ e\<lparr>inuse := True\<rparr> # ys"
  by (simp add: perfect_fit_def)

lemma split_block_append:
  "split_block (length xs) s (xs @ e # ys) =
     xs @ e\<lparr>size_blk := s, inuse := True\<rparr>
        # \<lparr>addr = addr e + s, size_blk = size_blk e - s, inuse = False\<rparr> # ys"
  by (simp add: split_block_def)

lemma best_fit_props:
  "best_fit s p i \<Longrightarrow> i < length p \<and> \<not> inuse (p ! i) \<and> s \<le> size_blk (p ! i)
     \<and> size_blk (p ! i) < 4194304"
  by (simp add: best_fit_def candidate_def)

lemma best_fit_exists: "list_ex (candidate s) p \<Longrightarrow> \<exists>i. best_fit s p i"
  using scan_none[of s p] scan_some_best_fit[of s p]
  by (cases "snd (scan_best s p 0 (4 * 1024 * 1024, None))") auto

lemma malloc_no_candidate:
  "initted st \<Longrightarrow> sz \<noteq> 0 \<Longrightarrow> \<not> list_ex (candidate (align32 sz)) (pool st) \<Longrightarrow>
     snd_mem_malloc sz True m st = Some (0, [Log_no_chunks (align32 sz)], st)"
  using scan_none[of "align32 sz" "pool st"] by (simp add: snd_mem_malloc_def)

lemma malloc_on_best_fit:
  "initted st \<Longrightarrow> sz \<noteq> 0 \<Longrightarrow> best_fit (align32 sz) (pool st) i \<Longrightarrow>
     snd_mem_malloc sz True m st =
       (if size_blk (pool st ! i) = align32 sz
        then Some (addr (pool st ! i), [], st\<lparr>pool := perfect_fit i (pool st)\<rparr>)
        else if \<not> m then Some (0, [Log_no_main_memory (align32 sz)], st)
        else Some (addr (pool st ! i), [], st\<lparr>pool := split_block i (align32 sz) (pool st)\<rparr>))"
  using best_fit_scan[of "align32 sz" "pool st" i] by (simp add: snd_mem_malloc_def)

lemma malloc_cases:
  assumes "snd_mem_malloc sz l m st = Some (p, ev, st')"
  shows "initted st \<and>
     ((p = 0 \<and> st' = st) \<or>
      (\<exists>i. best_fit (align32 sz) (pool st) i \<and> p = addr (pool st ! i) \<and> ev = []
         \<and> sz \<noteq> 0 \<and> l
         \<and> ((size_blk (pool st ! i) = align32 sz \<and> st' = st\<lparr>pool := perfect_fit i (pool st)\<rparr>)
            \<or> (size_blk (pool st ! i) \<noteq> align32 sz \<and> m
                \<and> st' = st\<lparr>pool := split_block i (align32 sz) (pool st)\<rparr>))))"
proof -
  from assms have i: "initted st" by (auto simp: snd_mem_malloc_def split: if_splits)
  show ?thesis
  proof (cases "sz = 0 \<or> \<not> l")
    case True
    with assms i show ?thesis by (auto simp: snd_mem_malloc_def split: if_splits)
  next
    case False
    then have nz: "sz \<noteq> 0" and l: "l" by auto
    show ?thesis
    proof (cases "list_ex (candidate (align32 sz)) (pool st)")
      case False
      with assms i nz l malloc_no_candidate[of st sz m] show ?thesis by simp
    next
      case True
      then obtain k where k: "best_fit (align32 sz) (pool st) k" using best_fit_exists by blast
      from assms l malloc_on_best_fit[OF i nz k, of m] i nz k show ?thesis
        by (auto split: if_splits)
    qed
  qed
qed

lemma free_cases:
  assumes "snd_mem_free a l st = Some (ev, st')"
  shows "initted st \<and>
     ((ev = [] \<and> st' = st \<and> (a = 0 \<or> \<not> l))
      \<or> (a \<noteq> 0 \<and> l \<and> a \<notin> addr ` set (pool st) \<and> ev = [Log_free_nonexistent 0] \<and> st' = st)
      \<or> (\<exists>i. a \<noteq> 0 \<and> l \<and> find_addr a (pool st) = Some i \<and> i < length (pool st) \<and> ev = []
            \<and> st' = st\<lparr>pool := free_block i (pool st)\<rparr>))"
  using assms find_addr_None[of a "pool st"] find_addr_Some[of a "pool st"]
  by (auto simp: snd_mem_free_def split: if_splits option.splits)

lemma malloc_ledger_inv:
  assumes inv: "ledger_inv r (pool st)" and m: "snd_mem_malloc sz l m st = Some (p, ev, st')"
  shows "initted st' \<and> ledger_inv r (pool st')"
proof -
  from malloc_cases[OF m] have i: "initted st" by simp
  from malloc_cases[OF m] consider "st' = st"
    | k where "best_fit (align32 sz) (pool st) k" "st' = st\<lparr>pool := perfect_fit k (pool st)\<rparr>"
    | k where "best_fit (align32 sz) (pool st) k"
        "st' = st\<lparr>pool := split_block k (align32 sz) (pool st)\<rparr>"
    by blast
  then show ?thesis
  proof cases
    case 1
    with inv i show ?thesis by simp
  next
    case 2
    define xs e ys where "xs = take k (pool st)" and "e = pool st ! k"
      and "ys = drop (Suc k) (pool st)"
    have p: "pool st = xs @ e # ys" and l: "k = length xs"
      using best_fit_props[OF 2(1)]
      by (simp_all add: xs_def e_def ys_def id_take_nth_drop[symmetric])
    have "pool st' = xs @ e\<lparr>inuse := True\<rparr> # ys"
      using 2(2) p l perfect_fit_append[of xs e ys] by simp
    with inv p i 2(2) show ?thesis by (simp add: ledger_inv_mark)
  next
    case 3
    define xs e ys where "xs = take k (pool st)" and "e = pool st ! k"
      and "ys = drop (Suc k) (pool st)"
    have p: "pool st = xs @ e # ys" and l: "k = length xs"
      using best_fit_props[OF 3(1)]
      by (simp_all add: xs_def e_def ys_def id_take_nth_drop[symmetric])
    have le: "align32 sz \<le> size_blk e" using best_fit_props[OF 3(1)] by (simp add: e_def)
    have "pool st' = xs @ e\<lparr>size_blk := align32 sz, inuse := True\<rparr>
        # \<lparr>addr = addr e + align32 sz, size_blk = size_blk e - align32 sz, inuse = False\<rparr> # ys"
      using 3(2) p l split_block_append[of xs "align32 sz" e ys] by simp
    with inv p i 3(2) ledger_inv_split[of r xs e ys "align32 sz", OF _ le align32_dvd]
    show ?thesis by simp
  qed
qed

lemma free_ledger_inv:
  assumes inv: "ledger_inv r (pool st)" and f: "snd_mem_free a l st = Some (ev, st')"
  shows "initted st' \<and> ledger_inv r (pool st')"
  using free_cases[OF f] inv ledger_inv_free_block[of r "pool st"] by auto

lemma init_ledger_inv:
  assumes r: "unat (align32 reserve) \<le> 2097152"
    and i: "snd_mem_init reserve sl l m st = (None, st')"
  shows "initted st' \<and> ledger_inv (align32 reserve) (pool st')"
proof -
  from i have st': "initted st'"
     "pool st' = [\<lparr>addr = align32 reserve, size_blk = 2097152 - align32 reserve, inuse = False\<rparr>]"
    by (auto simp: snd_mem_init_def Let_def split: if_splits)
  from r have le: "align32 reserve \<le> 2097152" by (simp add: word_le_nat_alt)
  then have u: "unat (2097152 - align32 reserve) = 2097152 - unat (align32 reserve)"
    by (simp add: unat_sub)
  have "32 dvd 2097152 - unat (align32 reserve)"
    by (rule dvd_diff_nat) (simp_all add: align32_dvd)
  with st' r u show ?thesis by (simp add: ledger_inv_chain align32_dvd)
qed

text \<open>
  A call of \<^verbatim>\<open>snd_mem_init\<close> that fails leaves the pool uninitialised or as it was,
  except when the lock request of its \<^verbatim>\<open>snd_mem_shutdown\<close> fails and its own succeeds:
  then \<^verbatim>\<open>TAILQ_INIT\<close> empties the queue of a pool that stays initialised.
\<close>

lemma init_failure_cases:
  assumes "snd_mem_init reserve shutdown_lock_ok lock_ok mem_ok st = (Some e, st')"
  shows "(e = EAGAIN \<and> \<not> lock_ok \<or> e = ENOMEM \<and> lock_ok \<and> \<not> mem_ok)
       \<and> (\<not> initted st' \<or> st' = st \<or> (\<not> shutdown_lock_ok \<and> lock_ok \<and> pool st' = []))"
  using assms by (auto simp: snd_mem_init_def snd_mem_shutdown_def Let_def split: if_splits)

section \<open>Invariants along sequences of calls\<close>

lemma naf_perfect_fit:
  assumes "no_adjacent_free p" and "i < length p"
  shows "no_adjacent_free (perfect_fit i p)"
proof -
  define xs e ys where "xs = take i p" and "e = p ! i" and "ys = drop (Suc i) p"
  have p: "p = xs @ e # ys" and l: "i = length xs"
    using assms(2) by (simp_all add: xs_def e_def ys_def id_take_nth_drop[symmetric])
  from assms(1) p have n: "no_adjacent_free (xs @ [e])" "no_adjacent_free ys"
    using naf_split[of xs e ys] by simp_all
  have "no_adjacent_free (xs @ e\<lparr>inuse := True\<rparr> # ys)"
    using n by (intro naf_split[THEN iffD2]) (auto simp: naf_snoc)
  then show ?thesis using p l perfect_fit_append[of xs e ys] by simp
qed

lemma naf_split_block:
  assumes "no_adjacent_free p" and "i < length p" and "\<not> inuse (p ! i)"
  shows "no_adjacent_free (split_block i s p)"
proof -
  define xs e ys where "xs = take i p" and "e = p ! i" and "ys = drop (Suc i) p"
  have p: "p = xs @ e # ys" and l: "i = length xs"
    using assms(2) by (simp_all add: xs_def e_def ys_def id_take_nth_drop[symmetric])
  from assms(1) p have n: "no_adjacent_free (xs @ [e])" "no_adjacent_free ys"
      "ys = [] \<or> inuse e \<or> inuse (hd ys)"
    using naf_split[of xs e ys] by simp_all
  from n(3) assms(3) have h: "ys = [] \<or> inuse (hd ys)" by (simp add: e_def)
  have "no_adjacent_free (xs @ e\<lparr>size_blk := s, inuse := True\<rparr>
          # \<lparr>addr = addr e + s, size_blk = size_blk e - s, inuse = False\<rparr> # ys)"
    using n(1,2) h by (simp add: naf_mid naf_snoc naf_Cons)
  then show ?thesis using p l split_block_append[of xs s e ys] by simp
qed

lemma naf_malloc:
  assumes "no_adjacent_free (pool st)" and m: "snd_mem_malloc sz l m st = Some (p, ev, st')"
  shows "no_adjacent_free (pool st')"
  using malloc_cases[OF m] assms(1) best_fit_props[of "align32 sz" "pool st"]
    naf_perfect_fit[of "pool st"] naf_split_block[of "pool st"]
  by auto

lemma naf_free:
  assumes "no_adjacent_free (pool st)" and f: "snd_mem_free a l st = Some (ev, st')"
  shows "no_adjacent_free (pool st')"
  using free_cases[OF f] assms(1) naf_free_block[of "pool st"] by auto

lemma naf_shutdown: "no_adjacent_free (pool st) \<Longrightarrow> no_adjacent_free (pool (snd_mem_shutdown l st))"
  by (simp add: snd_mem_shutdown_def)

lemma naf_init:
  "no_adjacent_free (pool st) \<Longrightarrow> no_adjacent_free (pool (snd (snd_mem_init reserve sl l m st)))"
  by (simp add: snd_mem_init_def snd_mem_shutdown_def Let_def)

lemma naf_exec:
  "no_adjacent_free (pool st) \<Longrightarrow> exec c st = Some st' \<Longrightarrow> no_adjacent_free (pool st')"
proof (cases c)
  case (Init reserve sl l m)
  assume "no_adjacent_free (pool st)" "exec c st = Some st'"
  with Init naf_init[of st reserve sl l m] show ?thesis by auto
next
  case (Shutdown l)
  assume "no_adjacent_free (pool st)" "exec c st = Some st'"
  with Shutdown naf_shutdown[of st l] show ?thesis by auto
next
  case (Malloc sz l m)
  assume "no_adjacent_free (pool st)" "exec c st = Some st'"
  with Malloc show ?thesis by (auto split: option.splits dest: naf_malloc)
next
  case (Free a l)
  assume "no_adjacent_free (pool st)" "exec c st = Some st'"
  with Free show ?thesis by (auto split: option.splits dest: naf_free)
next
  case (Available l)
  assume "no_adjacent_free (pool st)" "exec c st = Some st'"
  with Available show ?thesis by simp
qed

lemma naf_run:
  "no_adjacent_free (pool st) \<Longrightarrow> run cs st = Some st' \<Longrightarrow> no_adjacent_free (pool st')"
proof (induction cs arbitrary: st)
  case Nil
  then show ?case by simp
next
  case (Cons c cs)
  from Cons.prems(2) obtain st1 where e: "exec c st = Some st1" and r: "run cs st1 = Some st'"
    by (auto split: option.splits)
  from naf_exec[OF Cons.prems(1) e] Cons.IH[OF _ r] show ?case by simp
qed

lemma naf_reachable: "run cs boot = Some st \<Longrightarrow> no_adjacent_free (pool st)"
  using naf_run[of boot cs st] by (simp add: boot_def)

lemma ledger_inv_exec:
  assumes "initted st \<and> ledger_inv r (pool st)" and "keeps_pool c" and "exec c st = Some st'"
  shows "initted st' \<and> ledger_inv r (pool st')"
proof (cases c)
  case (Malloc sz l m)
  with assms show ?thesis by (auto split: option.splits dest: malloc_ledger_inv)
next
  case (Free a l)
  with assms show ?thesis by (auto split: option.splits dest: free_ledger_inv)
qed (use assms in auto)

lemma ledger_inv_run:
  "initted st \<and> ledger_inv r (pool st) \<Longrightarrow> list_all keeps_pool cs \<Longrightarrow> run cs st = Some st' \<Longrightarrow>
     initted st' \<and> ledger_inv r (pool st')"
proof (induction cs arbitrary: st)
  case Nil
  then show ?case by simp
next
  case (Cons c cs)
  from Cons.prems(3) obtain st1 where e: "exec c st = Some st1" and r: "run cs st1 = Some st'"
    by (auto split: option.splits)
  from Cons.prems(2) have k: "keeps_pool c" "list_all keeps_pool cs" by simp_all
  from ledger_inv_exec[OF Cons.prems(1) k(1) e] Cons.IH[OF _ k(2) r] show ?case by simp
qed

section \<open>Scenario A\<close>

text \<open>
  C2. After \<^verbatim>\<open>snd_mem_init(0)\<close> the ledger is one free extent of 2097152 bytes at offset
  0 and \<^verbatim>\<open>snd_mem_available()\<close> returns 2097152. \<^verbatim>\<open>snd_mem_malloc(1000)\<close> rounds the
  request to 1024, takes that extent, splits it and returns its address 0, leaving
  a free extent of 2097152 - 1024 bytes at offset 1024. The value 0 is also what the
  function returns when it allocates nothing: for a request of 0 bytes, when the
  lock is not taken, and when no extent is large enough; and \<^verbatim>\<open>snd_mem_free(0)\<close>
  returns at once, so the extent at offset 0 stays in use.
\<close>

theorem scenario_A:
  "snd_mem_init 0 True True True boot = (None, ledger [blk 0 2097152 False])
   \<and> snd_mem_available True (ledger [blk 0 2097152 False]) = (2097152, [])
   \<and> align32 1000 = 1024
   \<and> snd_mem_malloc 1000 True True (ledger [blk 0 2097152 False])
       = Some (0, [], ledger [blk 0 1024 True, blk 1024 (2097152 - 1024) False])
   \<and> snd_mem_malloc 0 True True (ledger [blk 0 2097152 False])
       = Some (0, [], ledger [blk 0 2097152 False])
   \<and> snd_mem_malloc 1000 False True (ledger [blk 0 2097152 False])
       = Some (0, [Set_errno EAGAIN], ledger [blk 0 2097152 False])
   \<and> snd_mem_malloc 2097152 True True
         (ledger [blk 0 1024 True, blk 1024 (2097152 - 1024) False])
       = Some (0, [Log_no_chunks 2097152],
               ledger [blk 0 1024 True, blk 1024 (2097152 - 1024) False])
   \<and> snd_mem_free 0 True (ledger [blk 0 1024 True, blk 1024 (2097152 - 1024) False])
       = Some ([], ledger [blk 0 1024 True, blk 1024 (2097152 - 1024) False])"
  by (simp add: eval_defs)

section \<open>The capacity query\<close>

text \<open>What the loop computes: the largest size of any extent, free or in use.\<close>

lemma scan_largest_Max:
  "scan_largest p largest = Max (insert largest (size_blk ` set p))"
proof (induction p arbitrary: largest)
  case Nil
  show ?case by simp
next
  case (Cons e es)
  let ?S = "size_blk ` set es"
  show ?case
  proof (cases "largest < size_blk e")
    case True
    have h: "size_blk e \<le> Max (insert (size_blk e) ?S)" by (rule Max_ge) simp_all
    have "max largest (Max (insert (size_blk e) ?S)) = Max (insert (size_blk e) ?S)"
      by (rule max_absorb2) (rule order.trans[OF less_imp_le[OF True] h])
    moreover have "Max (insert largest (insert (size_blk e) ?S))
        = max largest (Max (insert (size_blk e) ?S))"
      by (rule Max_insert) simp_all
    ultimately show ?thesis using True Cons.IH[of "size_blk e"] by simp
  next
    case False
    have h: "largest \<le> Max (insert largest ?S)" by (rule Max_ge) simp_all
    from False have le: "size_blk e \<le> largest" by simp
    have "max (size_blk e) (Max (insert largest ?S)) = Max (insert largest ?S)"
      by (rule max_absorb2) (rule order.trans[OF le h])
    moreover have "Max (insert (size_blk e) (insert largest ?S))
        = max (size_blk e) (Max (insert largest ?S))"
      by (rule Max_insert) simp_all
    moreover have "insert largest (insert (size_blk e) ?S) = insert (size_blk e) (insert largest ?S)"
      by (rule insert_commute)
    ultimately show ?thesis using False Cons.IH[of largest] by simp
  qed
qed

lemma available_all_extents:
  "initted st \<Longrightarrow> snd_mem_available True st = (Max (insert 0 (size_blk ` set (pool st))), [])"
  by (simp add: snd_mem_available_def scan_largest_Max)

text \<open>
  C1. \<^verbatim>\<open>snd_mem_available\<close> compares the size of every block with \<^verbatim>\<open>largest\<close> and does
  not look at \<^verbatim>\<open>inuse\<close>. After \<^verbatim>\<open>snd_mem_init(32)\<close> and \<^verbatim>\<open>snd_mem_malloc(2097120)\<close> the
  only extent is in use, no free extent exists and the largest free extent has
  size 0, yet the function returns 2097120, the size of the extent in use.
\<close>

theorem available_counts_inuse:
  "snd_mem_init 32 True True True boot = (None, ledger [blk 32 2097120 False])
   \<and> snd_mem_malloc 2097120 True True (ledger [blk 32 2097120 False])
       = Some (32, [], ledger [blk 32 2097120 True])
   \<and> largest_free (pool (ledger [blk 32 2097120 True])) = 0
   \<and> snd_mem_available True (ledger [blk 32 2097120 True]) = (2097120, [])"
  by (simp add: eval_defs largest_free_def)

section \<open>The ledger invariants\<close>

text \<open>
  C6, as the claim states it, fails: \<^verbatim>\<open>snd_mem_init\<close> does not compare \<^verbatim>\<open>reserve\<close> with
  the capacity. \<^verbatim>\<open>snd_mem_init(2097184)\<close> succeeds and leaves one extent whose size,
  4294967264, is not the capacity minus the reserved base.
\<close>

theorem conservation_counterexample:
  "snd_mem_init 2097184 True True True boot = (None, ledger [blk 2097184 4294967264 False])
   \<and> align32 2097184 = 2097184
   \<and> \<not> conservation 2097184 (pool (ledger [blk 2097184 4294967264 False]))"
  by (simp add: eval_defs conservation_def total_size_def)

text \<open>
  C6, amended. Let \<^verbatim>\<open>snd_mem_init(reserve)\<close> return 0 from any state, with the rounded
  \<^verbatim>\<open>reserve\<close> at most 2097152. Then after every sequence of \<^verbatim>\<open>snd_mem_malloc\<close>,
  \<^verbatim>\<open>snd_mem_free\<close> and \<^verbatim>\<open>snd_mem_available\<close> calls that return, whatever the outcome
  of their lock and memory requests, the pool is initialised and its ledger
  satisfies Coverage, Conservation for the rounded \<^verbatim>\<open>reserve\<close>, and Alignment, and
  its first extent begins at the rounded \<^verbatim>\<open>reserve\<close>. (\<^verbatim>\<open>snd_mem_available\<close> does not
  write to the pool at all.)
\<close>

theorem ledger_invariants_preserved:
  assumes "unat (align32 reserve) \<le> 2097152"
    and "snd_mem_init reserve shutdown_lock_ok lock_ok mem_ok st0 = (None, st1)"
    and "list_all keeps_pool cs"
    and "run cs st1 = Some st"
  shows "initted st \<and> coverage (pool st) \<and> conservation (align32 reserve) (pool st)
         \<and> alignment (pool st) \<and> based (align32 reserve) (pool st)"
  using ledger_inv_run[OF init_ledger_inv[OF assms(1,2)] assms(3,4)]
  by (simp add: ledger_inv_def)

theorem ledger_invariants_preserved_witness:
  "unat (align32 32) \<le> 2097152
   \<and> snd_mem_init 32 True True True boot = (None, ledger [blk 32 2097120 False])
   \<and> list_all keeps_pool [Malloc 1000 True True, Available True, Malloc 64 True True, Free 32 True]
   \<and> run [Malloc 1000 True True, Available True, Malloc 64 True True, Free 32 True]
         (ledger [blk 32 2097120 False])
       = Some (ledger [blk 32 1024 False, blk 1056 64 True, blk 1120 2096032 False])
   \<and> coverage [blk 32 1024 False, blk 1056 64 True, blk 1120 2096032 False]
   \<and> conservation 32 [blk 32 1024 False, blk 1056 64 True, blk 1120 2096032 False]
   \<and> alignment [blk 32 1024 False, blk 1056 64 True, blk 1120 2096032 False]"
proof -
  have a: "unat (align32 32) \<le> 2097152" by (simp add: align32_def)
  have b: "snd_mem_init 32 True True True boot = (None, ledger [blk 32 2097120 False])"
    by (simp add: eval_defs)
  have c: "list_all keeps_pool
             [Malloc 1000 True True, Available True, Malloc 64 True True, Free 32 True]"
    by simp
  have d: "run [Malloc 1000 True True, Available True, Malloc 64 True True, Free 32 True]
             (ledger [blk 32 2097120 False])
           = Some (ledger [blk 32 1024 False, blk 1056 64 True, blk 1120 2096032 False])"
    by (simp add: eval_defs)
  have e: "align32 32 = 32" by (simp add: align32_def)
  from ledger_invariants_preserved[OF a b c d]
  have x: "coverage [blk 32 1024 False, blk 1056 64 True, blk 1120 2096032 False]"
    "conservation 32 [blk 32 1024 False, blk 1056 64 True, blk 1120 2096032 False]"
    "alignment [blk 32 1024 False, blk 1056 64 True, blk 1120 2096032 False]"
    by (simp_all add: e ledger_def blk_def)
  show ?thesis by (intro conjI a b c d x)
qed

text \<open>
  C7. If no two consecutive extents of the ledger are both free before a call of
  \<^verbatim>\<open>snd_mem_free\<close>, then whenever the call returns (the pool was initialised) no two
  consecutive extents are both free after it. This holds for every offset and
  every outcome of the lock request, and needs nothing of the other invariants.
  Every state reached from the initial state by calls of the five functions
  satisfies the hypothesis (\<open>naf_reachable\<close>).
\<close>

theorem free_no_adjacent_free:
  assumes "no_adjacent_free (pool st)" and "snd_mem_free a lock_ok st = Some (ev, st')"
  shows "initted st \<and> no_adjacent_free (pool st')"
  using naf_free[OF assms] free_cases[OF assms(2)] by simp

theorem free_no_adjacent_free_witness:
  "no_adjacent_free (pool (ledger [blk 32 64 False, blk 96 64 True, blk 160 64 False, blk 224 2096960 True]))
   \<and> snd_mem_free 96 True (ledger [blk 32 64 False, blk 96 64 True, blk 160 64 False, blk 224 2096960 True])
       = Some ([], ledger [blk 32 192 False, blk 224 2096960 True])
   \<and> no_adjacent_free (pool (ledger [blk 32 192 False, blk 224 2096960 True]))"
proof -
  have a: "no_adjacent_free (pool (ledger [blk 32 64 False, blk 96 64 True, blk 160 64 False, blk 224 2096960 True]))"
    by (simp add: eval_defs)
  have b: "snd_mem_free 96 True (ledger [blk 32 64 False, blk 96 64 True, blk 160 64 False, blk 224 2096960 True])
       = Some ([], ledger [blk 32 192 False, blk 224 2096960 True])"
    by (simp add: eval_defs)
  from free_no_adjacent_free[OF a b]
  have c: "no_adjacent_free (pool (ledger [blk 32 192 False, blk 224 2096960 True]))" by simp
  show ?thesis by (intro conjI a b c)
qed

section \<open>No range check in snd\_mem\_init\<close>

text \<open>
  C9, as the claim states it, fails for the 31 largest values of \<^verbatim>\<open>reserve\<close>: the
  round-up of \<open>2^32 - 1\<close> to a multiple of 32 exceeds 2097152, but line 82 computes it
  modulo \<open>2^32\<close> and obtains 0. \<^verbatim>\<open>snd_mem_init\<close> then builds the ordinary ledger of one
  extent of 2097152 bytes at offset 0, and Conservation holds for the base 0.
\<close>

theorem reserve_wraps_counterexample:
  "(2097152::nat) < (unat (0xFFFFFFFF :: 32 word) + 31) div 32 * 32
   \<and> align32 0xFFFFFFFF = 0
   \<and> snd_mem_init 0xFFFFFFFF True True True boot = (None, ledger [blk 0 2097152 False])
   \<and> conservation 0 (pool (ledger [blk 0 2097152 False]))"
  by (simp add: eval_defs conservation_def total_size_def)

text \<open>
  C9, amended. \<^verbatim>\<open>snd_mem_init\<close> compares \<^verbatim>\<open>reserve\<close> with nothing. For a \<^verbatim>\<open>reserve\<close> above
  2097152 and at most \<open>2^32 - 32\<close>, with the lock taken and the record obtained, it
  returns 0 from any state: the rounded \<^verbatim>\<open>reserve\<close> is the round-up to a multiple of
  32 and exceeds 2097152, the pool is initialised with the single free extent at
  that address whose size is 2097152 minus the rounded \<^verbatim>\<open>reserve\<close> modulo \<open>2^32\<close>, that
  is \<open>2^32 + 2097152\<close> minus the rounded \<^verbatim>\<open>reserve\<close>, more than the whole sound RAM,
  and Conservation, read in the integers, fails. For a \<^verbatim>\<open>reserve\<close> above \<open>2^32 - 32\<close>
  the rounding itself wraps to 0, and the call builds the ledger of one extent of
  2097152 bytes at offset 0, for which Conservation holds.
\<close>

theorem init_no_range_check:
  assumes "2097152 < unat reserve"
  shows "(unat reserve \<le> 4294967264 \<longrightarrow>
           (\<exists>st'. snd_mem_init reserve shutdown_lock_ok True True st = (None, st')
              \<and> initted st'
              \<and> unat (align32 reserve) = (unat reserve + 31) div 32 * 32
              \<and> 2097152 < unat (align32 reserve)
              \<and> pool st' = [\<lparr>addr = align32 reserve, size_blk = 2097152 - align32 reserve,
                              inuse = False\<rparr>]
              \<and> unat (2097152 - align32 reserve)
                  = 4294967296 + 2097152 - (unat reserve + 31) div 32 * 32
              \<and> 2097152 < unat (2097152 - align32 reserve)
              \<and> \<not> conservation (align32 reserve) (pool st')))
       \<and> (4294967265 \<le> unat reserve \<longrightarrow>
           (\<exists>st'. snd_mem_init reserve shutdown_lock_ok True True st = (None, st')
              \<and> initted st'
              \<and> align32 reserve = 0
              \<and> pool st' = [\<lparr>addr = 0, size_blk = 2097152, inuse = False\<rparr>]
              \<and> conservation (align32 reserve) (pool st')))"
proof (intro conjI impI)
  assume le: "unat reserve \<le> 4294967264"
  let ?r = "align32 reserve"
  have ar: "unat ?r = (unat reserve + 31) div 32 * 32" using le by (rule align32_nowrap)
  have gt: "2097152 < unat ?r" using align32_bounds[OF le] assms by simp
  have u0: "unat (2097152 - ?r) = 4294967296 + 2097152 - unat ?r"
    using gt by (simp add: unat_sub_if')
  have u: "unat (2097152 - ?r) = 4294967296 + 2097152 - (unat reserve + 31) div 32 * 32"
    using u0 ar by simp
  have "unat ?r < 4294967296" by (rule unat_lt_2p32)
  with u0 have big: "2097152 < unat (2097152 - ?r)" by simp
  have nc: "\<not> conservation ?r [\<lparr>addr = ?r, size_blk = 2097152 - ?r, inuse = False\<rparr>]"
    unfolding conservation_def using gt by linarith
  let ?st' = "(if initted st then snd_mem_shutdown shutdown_lock_ok st else st)
                \<lparr>pool := [\<lparr>addr = ?r, size_blk = 2097152 - ?r, inuse = False\<rparr>],
                  initted := True\<rparr>"
  have i: "snd_mem_init reserve shutdown_lock_ok True True st = (None, ?st')"
    by (simp add: snd_mem_init_def Let_def)
  have p: "pool ?st' = [\<lparr>addr = ?r, size_blk = 2097152 - ?r, inuse = False\<rparr>]" by simp
  have t: "initted ?st'" by simp
  from nc p have nc': "\<not> conservation ?r (pool ?st')" by simp
  show "\<exists>st'. snd_mem_init reserve shutdown_lock_ok True True st = (None, st')
              \<and> initted st'
              \<and> unat (align32 reserve) = (unat reserve + 31) div 32 * 32
              \<and> 2097152 < unat (align32 reserve)
              \<and> pool st' = [\<lparr>addr = align32 reserve, size_blk = 2097152 - align32 reserve,
                              inuse = False\<rparr>]
              \<and> unat (2097152 - align32 reserve)
                  = 4294967296 + 2097152 - (unat reserve + 31) div 32 * 32
              \<and> 2097152 < unat (2097152 - align32 reserve)
              \<and> \<not> conservation (align32 reserve) (pool st')"
    by (intro exI[of _ ?st'] conjI i t ar gt p u big nc')
next
  assume ge: "4294967265 \<le> unat reserve"
  have z: "align32 reserve = 0" using ge by (rule align32_wrap)
  let ?st' = "(if initted st then snd_mem_shutdown shutdown_lock_ok st else st)
                \<lparr>pool := [\<lparr>addr = 0, size_blk = 2097152, inuse = False\<rparr>],
                  initted := True\<rparr>"
  have i: "snd_mem_init reserve shutdown_lock_ok True True st = (None, ?st')"
    by (simp add: snd_mem_init_def Let_def z)
  have p: "pool ?st' = [\<lparr>addr = 0, size_blk = 2097152, inuse = False\<rparr>]" by simp
  have t: "initted ?st'" by simp
  have c: "conservation (align32 reserve) (pool ?st')"
    by (simp add: z conservation_def total_size_def)
  show "\<exists>st'. snd_mem_init reserve shutdown_lock_ok True True st = (None, st')
              \<and> initted st'
              \<and> align32 reserve = 0
              \<and> pool st' = [\<lparr>addr = 0, size_blk = 2097152, inuse = False\<rparr>]
              \<and> conservation (align32 reserve) (pool st')"
    by (intro exI[of _ ?st'] conjI i t z p c)
qed

theorem init_no_range_check_witness:
  "2097152 < unat (2097153 :: 32 word) \<and> unat (2097153 :: 32 word) \<le> 4294967264
   \<and> align32 2097153 = 2097184
   \<and> snd_mem_init 2097153 True True True boot = (None, ledger [blk 2097184 4294967264 False])
   \<and> \<not> conservation (align32 2097153) [blk 2097184 4294967264 False]
   \<and> 2097152 < unat (0xFFFFFFFF :: 32 word) \<and> 4294967265 \<le> unat (0xFFFFFFFF :: 32 word)
   \<and> snd_mem_init 0xFFFFFFFF True True True boot = (None, ledger [blk 0 2097152 False])
   \<and> conservation (align32 0xFFFFFFFF) [blk 0 2097152 False]"
proof -
  have a: "2097152 < unat (2097153 :: 32 word)" by simp
  have a': "unat (2097153 :: 32 word) \<le> 4294967264" by simp
  have e: "align32 2097153 = 2097184" by (simp add: align32_def)
  have b: "snd_mem_init 2097153 True True True boot
             = (None, ledger [blk 2097184 4294967264 False])"
    by (simp add: eval_defs)
  from init_no_range_check[OF a, of True boot, THEN conjunct1, rule_format, OF a'] b
  have c: "\<not> conservation (align32 2097153) [blk 2097184 4294967264 False]"
    by (auto simp: ledger_def)
  have f: "2097152 < unat (0xFFFFFFFF :: 32 word)" by simp
  have f': "4294967265 \<le> unat (0xFFFFFFFF :: 32 word)" by simp
  have g: "snd_mem_init 0xFFFFFFFF True True True boot = (None, ledger [blk 0 2097152 False])"
    by (simp add: eval_defs)
  from init_no_range_check[OF f, of True boot, THEN conjunct2, rule_format, OF f'] g
  have h: "conservation (align32 0xFFFFFFFF) [blk 0 2097152 False]"
    by (auto simp: ledger_def blk_def)
  show ?thesis by (intro conjI a a' e b c f f' g h)
qed

section \<open>Allocating and freeing at once\<close>

lemma coalesce_next_append2:
  "coalesce_next (Suc (length xs)) (xs @ o' # c # ys) =
     (case ys of [] \<Rightarrow> xs @ [o', c]
      | y # ys' \<Rightarrow> if inuse y then xs @ o' # c # ys
                    else xs @ o' # c\<lparr>size_blk := size_blk c + size_blk y\<rparr> # ys')"
  using coalesce_next_append[of "xs @ [o']" c ys] by (simp split: list.splits)

lemma unmark: "\<not> inuse e \<Longrightarrow> e\<lparr>inuse := False\<rparr> = e"
  by (cases e) simp

lemma unsplit: "\<not> inuse e \<Longrightarrow> e\<lparr>size_blk := s + (size_blk e - s), inuse := False\<rparr> = e"
  by (cases e) simp

lemma free_block_restores_perfect:
  assumes "xs = [] \<or> inuse (last xs)" and "ys = [] \<or> inuse (hd ys)" and "\<not> inuse e"
  shows "free_block (length xs) (xs @ e\<lparr>inuse := True\<rparr> # ys) = xs @ e # ys"
proof (cases xs rule: rev_cases)
  case Nil
  with assms show ?thesis
    using coalesce_next_append[of "[]" e ys]
    by (auto simp: free_block_first unmark split: list.splits)
next
  case (snoc xs' o')
  with assms show ?thesis
    by (auto simp: free_block_append coalesce_next_append2 unmark split: list.splits)
qed

lemma free_block_restores_split:
  assumes "xs = [] \<or> inuse (last xs)" and "\<not> inuse e"
  shows "free_block (length xs)
           (xs @ e\<lparr>size_blk := s, inuse := True\<rparr>
               # \<lparr>addr = a', size_blk = size_blk e - s, inuse = False\<rparr> # ys)
         = xs @ e # ys"
proof (cases xs rule: rev_cases)
  case Nil
  with assms show ?thesis
    using coalesce_next_append[of "[]" "e\<lparr>size_blk := s, inuse := False\<rparr>"
            "\<lparr>addr = a', size_blk = size_blk e - s, inuse = False\<rparr> # ys"]
    by (simp add: free_block_first unsplit)
next
  case (snoc xs' o')
  with assms show ?thesis
    by (simp add: free_block_append coalesce_next_append2 unsplit)
qed

text \<open>
  C8, as the claim states it, fails. A request of \<open>2^32 - 1\<close> bytes is rounded to 0 and
  leaves a zero-sized extent in use at offset 32, in front of the free extent at the
  same offset. From that state \<^verbatim>\<open>snd_mem_malloc(64)\<close> returns 32, and \<^verbatim>\<open>snd_mem_free(32)\<close>
  finds the zero-sized extent first: the ledger is not the one before the two calls.
\<close>

theorem round_trip_counterexample:
  "run [Init 32 True True True, Malloc 0xFFFFFFFF True True] boot
     = Some (ledger [blk 32 0 True, blk 32 2097120 False])
   \<and> snd_mem_malloc 64 True True (ledger [blk 32 0 True, blk 32 2097120 False])
       = Some (32, [], ledger [blk 32 0 True, blk 32 64 True, blk 96 2097056 False])
   \<and> snd_mem_free 32 True (ledger [blk 32 0 True, blk 32 64 True, blk 96 2097056 False])
       = Some ([], ledger [blk 32 0 False, blk 32 64 True, blk 96 2097056 False])
   \<and> ledger [blk 32 0 False, blk 32 64 True, blk 96 2097056 False]
       \<noteq> ledger [blk 32 0 True, blk 32 2097120 False]"
  by (simp add: eval_defs)

text \<open>
  C8, amended. In every state reached from the initial state by a sequence of calls
  in which no two extents of the ledger have the same address: if \<^verbatim>\<open>snd_mem_malloc\<close>
  returns a nonzero offset, then \<^verbatim>\<open>snd_mem_free\<close> of that offset, called next with the
  lock taken, logs nothing and restores the state before the allocation, for a
  perfect fit and for a split alike.
\<close>

theorem alloc_free_round_trip:
  assumes reach: "run cs boot = Some st"
    and dist: "distinct (map addr (pool st))"
    and m: "snd_mem_malloc sz lock_ok mem_ok st = Some (p, ev, st1)"
    and nz: "p \<noteq> 0"
  shows "snd_mem_free p True st1 = Some ([], st)"
proof -
  from malloc_cases[OF m] nz obtain k where i: "initted st"
    and bf: "best_fit (align32 sz) (pool st) k" and pk: "p = addr (pool st ! k)"
    and c: "st1 = st\<lparr>pool := perfect_fit k (pool st)\<rparr>
            \<or> st1 = st\<lparr>pool := split_block k (align32 sz) (pool st)\<rparr>"
    by auto
  define xs e ys where "xs = take k (pool st)" and "e = pool st ! k"
    and "ys = drop (Suc k) (pool st)"
  have p: "pool st = xs @ e # ys" and l: "k = length xs" and fr: "\<not> inuse e"
    using best_fit_props[OF bf]
    by (simp_all add: xs_def e_def ys_def id_take_nth_drop[symmetric])
  from dist p have "addr e \<notin> addr ` set xs" by auto
  then have d: "\<forall>x\<in>set xs. addr x \<noteq> addr e" by (metis imageI)
  from naf_reachable[OF reach] p have "no_adjacent_free (xs @ e # ys)" by simp
  with fr have n: "xs = [] \<or> inuse (last xs)" "ys = [] \<or> inuse (hd ys)"
    using naf_split[of xs e ys] by (auto simp: naf_snoc)
  from c show ?thesis
  proof
    assume s: "st1 = st\<lparr>pool := perfect_fit k (pool st)\<rparr>"
    then have p1: "pool st1 = xs @ e\<lparr>inuse := True\<rparr> # ys"
      using p l perfect_fit_append[of xs e ys] by simp
    have f: "find_addr p (pool st1) = Some (length xs)"
      unfolding p1 using d pk by (intro find_addr_append) (simp_all add: e_def)
    have "free_block (length xs) (pool st1) = pool st"
      unfolding p1 p by (rule free_block_restores_perfect[OF n fr])
    with f s i nz show ?thesis by (simp add: snd_mem_free_def)
  next
    assume s: "st1 = st\<lparr>pool := split_block k (align32 sz) (pool st)\<rparr>"
    then have p1: "pool st1 = xs @ e\<lparr>size_blk := align32 sz, inuse := True\<rparr>
        # \<lparr>addr = addr e + align32 sz, size_blk = size_blk e - align32 sz, inuse = False\<rparr> # ys"
      using p l split_block_append[of xs "align32 sz" e ys] by simp
    have f: "find_addr p (pool st1) = Some (length xs)"
      unfolding p1 using d pk by (intro find_addr_append) (simp_all add: e_def)
    have "free_block (length xs) (pool st1) = pool st"
      unfolding p1 p by (rule free_block_restores_split[OF n(1) fr])
    with f s i nz show ?thesis by (simp add: snd_mem_free_def)
  qed
qed

theorem alloc_free_round_trip_witness:
  "run [Init 32 True True True, Malloc 1000 True True] boot
     = Some (ledger [blk 32 1024 True, blk 1056 2096096 False])
   \<and> distinct (map addr (pool (ledger [blk 32 1024 True, blk 1056 2096096 False])))
   \<and> snd_mem_malloc 100 True True (ledger [blk 32 1024 True, blk 1056 2096096 False])
       = Some (1056, [], ledger [blk 32 1024 True, blk 1056 128 True, blk 1184 2095968 False])
   \<and> (1056::32 word) \<noteq> 0
   \<and> snd_mem_free 1056 True (ledger [blk 32 1024 True, blk 1056 128 True, blk 1184 2095968 False])
       = Some ([], ledger [blk 32 1024 True, blk 1056 2096096 False])"
proof -
  have a: "run [Init 32 True True True, Malloc 1000 True True] boot
     = Some (ledger [blk 32 1024 True, blk 1056 2096096 False])"
    by (simp add: eval_defs)
  have b: "distinct (map addr (pool (ledger [blk 32 1024 True, blk 1056 2096096 False])))"
    by (simp add: ledger_def blk_def)
  have c: "snd_mem_malloc 100 True True (ledger [blk 32 1024 True, blk 1056 2096096 False])
       = Some (1056, [], ledger [blk 32 1024 True, blk 1056 128 True, blk 1184 2095968 False])"
    by (simp add: eval_defs)
  have d: "(1056::32 word) \<noteq> 0" by simp
  show ?thesis by (intro conjI a b c d alloc_free_round_trip[OF a b c d])
qed

section \<open>Freeing an offset that was never handed out\<close>

lemma inuse_addrs_simps [simp]:
  "inuse_addrs [] = {}"
  "inuse_addrs (e # es) = (if inuse e then insert (addr e) (inuse_addrs es) else inuse_addrs es)"
  "inuse_addrs (xs @ ys) = inuse_addrs xs \<union> inuse_addrs ys"
  by (auto simp: inuse_addrs_def)

lemma inuse_coalesce_next:
  "inuse_addrs (coalesce_next (length xs) (xs @ c # ys)) \<subseteq> inuse_addrs (xs @ c # ys)"
  by (cases ys) (auto simp: coalesce_next_append)

lemma inuse_free_block:
  assumes "i < length p"
  shows "inuse_addrs (free_block i p) \<subseteq> inuse_addrs p"
proof -
  define xs e ys where "xs = take i p" and "e = p ! i" and "ys = drop (Suc i) p"
  have p: "p = xs @ e # ys" and l: "i = length xs"
    using assms by (simp_all add: xs_def e_def ys_def id_take_nth_drop[symmetric])
  show ?thesis
  proof (cases xs rule: rev_cases)
    case Nil
    have "inuse_addrs (coalesce_next (length ([]::snd_block list))
              ([] @ e\<lparr>inuse := False\<rparr> # ys))
          \<subseteq> inuse_addrs ([] @ e\<lparr>inuse := False\<rparr> # ys)"
      by (rule inuse_coalesce_next)
    then have "inuse_addrs (free_block 0 (e # ys)) \<subseteq> inuse_addrs ys"
      by (simp add: free_block_first)
    with p l Nil show ?thesis by auto
  next
    case (snoc xs' o')
    have f: "free_block i p = 
      (if inuse o' then coalesce_next (length (xs' @ [o'])) ((xs' @ [o']) @ e\<lparr>inuse := False\<rparr> # ys)
       else coalesce_next (length xs') (xs' @ o'\<lparr>size_blk := size_blk o' + size_blk e\<rparr> # ys))"
      using free_block_append[of xs' o' e ys] p l snoc by simp
    show ?thesis
    proof (cases "inuse o'")
      case True
      have "inuse_addrs (free_block i p) \<subseteq> inuse_addrs ((xs' @ [o']) @ e\<lparr>inuse := False\<rparr> # ys)"
        unfolding f using True inuse_coalesce_next[of "xs' @ [o']" "e\<lparr>inuse := False\<rparr>" ys]
        by simp
      also have "\<dots> \<subseteq> inuse_addrs p" unfolding p snoc by auto
      finally show ?thesis .
    next
      case False
      have "inuse_addrs (free_block i p)
              \<subseteq> inuse_addrs (xs' @ o'\<lparr>size_blk := size_blk o' + size_blk e\<rparr> # ys)"
        unfolding f using False
          inuse_coalesce_next[of xs' "o'\<lparr>size_blk := size_blk o' + size_blk e\<rparr>" ys]
        by simp
      also have "\<dots> \<subseteq> inuse_addrs p" unfolding p snoc using False by auto
      finally show ?thesis .
    qed
  qed
qed

lemma inuse_perfect_fit:
  assumes "i < length p"
  shows "inuse_addrs (perfect_fit i p) \<subseteq> insert (addr (p ! i)) (inuse_addrs p)"
proof -
  define xs e ys where "xs = take i p" and "e = p ! i" and "ys = drop (Suc i) p"
  have p: "p = xs @ e # ys" and l: "i = length xs"
    using assms by (simp_all add: xs_def e_def ys_def id_take_nth_drop[symmetric])
  have "perfect_fit i p = xs @ e\<lparr>inuse := True\<rparr> # ys"
    using p l perfect_fit_append[of xs e ys] by simp
  then show ?thesis unfolding e_def[symmetric] using p by auto
qed

lemma inuse_split_block:
  assumes "i < length p"
  shows "inuse_addrs (split_block i s p) \<subseteq> insert (addr (p ! i)) (inuse_addrs p)"
proof -
  define xs e ys where "xs = take i p" and "e = p ! i" and "ys = drop (Suc i) p"
  have p: "p = xs @ e # ys" and l: "i = length xs"
    using assms by (simp_all add: xs_def e_def ys_def id_take_nth_drop[symmetric])
  have "split_block i s p = xs @ e\<lparr>size_blk := s, inuse := True\<rparr>
        # \<lparr>addr = addr e + s, size_blk = size_blk e - s, inuse = False\<rparr> # ys"
    using p l split_block_append[of xs s e ys] by simp
  then show ?thesis unfolding e_def[symmetric] using p by auto
qed

lemma inuse_exec:
  assumes "exec c st = Some st'"
  shows "inuse_addrs (pool st') \<subseteq> inuse_addrs (pool st) \<union> set (returned_by c st)"
proof (cases c)
  case (Init reserve sl l m)
  with assms show ?thesis
    by (auto simp: snd_mem_init_def snd_mem_shutdown_def Let_def split: if_splits)
next
  case (Shutdown l)
  with assms show ?thesis by (auto simp: snd_mem_shutdown_def split: if_splits)
next
  case (Malloc sz l m)
  with assms obtain p ev where m: "snd_mem_malloc sz l m st = Some (p, ev, st')"
    by (auto split: option.splits)
  then have r: "returned_by c st = [p]" using Malloc by simp
  from malloc_cases[OF m] consider "st' = st"
    | k where "best_fit (align32 sz) (pool st) k" "p = addr (pool st ! k)"
        "st' = st\<lparr>pool := perfect_fit k (pool st)\<rparr>"
    | k where "best_fit (align32 sz) (pool st) k" "p = addr (pool st ! k)"
        "st' = st\<lparr>pool := split_block k (align32 sz) (pool st)\<rparr>"
    by blast
  then show ?thesis
  proof cases
    case 1
    then show ?thesis by auto
  next
    case 2
    from best_fit_props[OF 2(1)] have "k < length (pool st)" by simp
    from inuse_perfect_fit[OF this] 2(2,3) r show ?thesis by auto
  next
    case 3
    from best_fit_props[OF 3(1)] have "k < length (pool st)" by simp
    from inuse_split_block[OF this, of "align32 sz"] 3(2,3) r show ?thesis by auto
  qed
next
  case (Free a l)
  with assms obtain ev where f: "snd_mem_free a l st = Some (ev, st')"
    by (auto split: option.splits)
  from free_cases[OF f] consider "st' = st"
    | i where "i < length (pool st)" "st' = st\<lparr>pool := free_block i (pool st)\<rparr>"
    by blast
  then show ?thesis
  proof cases
    case 1
    then show ?thesis by auto
  next
    case 2
    from inuse_free_block[OF 2(1)] 2(2) show ?thesis by auto
  qed
next
  case (Available l)
  with assms show ?thesis by simp
qed

lemma inuse_run:
  "run cs st = Some st' \<Longrightarrow>
     inuse_addrs (pool st') \<subseteq> inuse_addrs (pool st) \<union> set (returned cs st)"
proof (induction cs arbitrary: st)
  case Nil
  then show ?case by simp
next
  case (Cons c cs)
  from Cons.prems obtain st1 where e: "exec c st = Some st1" and r: "run cs st1 = Some st'"
    by (auto split: option.splits)
  have "set (returned (c # cs) st) = set (returned_by c st) \<union> set (returned cs st1)"
    using e by simp
  with inuse_exec[OF e] Cons.IH[OF r] show ?case by blast
qed

lemma inuse_reachable:
  assumes "run cs boot = Some st" and "e \<in> set (pool st)" and "inuse e"
  shows "addr e \<in> set (returned cs boot)"
proof -
  from assms(2,3) have "addr e \<in> inuse_addrs (pool st)" by (auto simp: inuse_addrs_def)
  with inuse_run[OF assms(1)] show ?thesis by (auto simp: boot_def)
qed

lemma free_block_free_noop:
  assumes "no_adjacent_free p" and "i < length p" and "\<not> inuse (p ! i)"
  shows "free_block i p = p"
proof -
  define xs e ys where "xs = take i p" and "e = p ! i" and "ys = drop (Suc i) p"
  have p: "p = xs @ e # ys" and l: "i = length xs" and fr: "\<not> inuse e"
    using assms(2,3) by (simp_all add: xs_def e_def ys_def id_take_nth_drop[symmetric])
  from assms(1) p have "no_adjacent_free (xs @ e # ys)" by simp
  with fr have n: "xs = [] \<or> inuse (last xs)" "ys = [] \<or> inuse (hd ys)"
    using naf_split[of xs e ys] by (auto simp: naf_snoc)
  have "free_block (length xs) (xs @ e # ys) = xs @ e # ys"
  proof (cases xs rule: rev_cases)
    case Nil
    with n fr show ?thesis
      using coalesce_next_append[of "[]" e ys]
      by (auto simp: free_block_first unmark split: list.splits)
  next
    case (snoc xs' o')
    with n fr show ?thesis
      by (auto simp: free_block_append coalesce_next_append2 unmark split: list.splits)
  qed
  with p l show ?thesis by simp
qed

text \<open>
  C3, as the claim states it, fails: after \<^verbatim>\<open>snd_mem_init(32)\<close> no call of
  \<^verbatim>\<open>snd_mem_malloc\<close> has returned the offset 32, yet \<^verbatim>\<open>snd_mem_free(32)\<close> finds the free
  extent at 32 and logs nothing. The ledger is left as it was.
\<close>

theorem free_silent_counterexample:
  "snd_mem_init 32 True True True boot = (None, ledger [blk 32 2097120 False])
   \<and> snd_mem_free 32 True (ledger [blk 32 2097120 False])
       = Some ([], ledger [blk 32 2097120 False])"
  by (simp add: eval_defs)

text \<open>
  C3, amended. In every initialised state reached from the initial state by a sequence
  of calls, \<^verbatim>\<open>snd_mem_free\<close>, with the lock taken, of a nonzero offset that no
  \<^verbatim>\<open>snd_mem_malloc\<close> call of the sequence has returned leaves the state unchanged. It
  logs the "non-existent block" message exactly when the offset is not the address
  of any extent; when the offset is the address of an extent, that extent is free
  and the call logs nothing.
\<close>

theorem free_never_returned:
  assumes "run cs boot = Some st" and "initted st" and "a \<noteq> 0"
    and "a \<notin> set (returned cs boot)"
  shows "snd_mem_free a True st
           = Some (if a \<in> addr ` set (pool st) then [] else [Log_free_nonexistent 0], st)"
proof (cases "find_addr a (pool st)")
  case None
  with assms(2,3) find_addr_None[of a "pool st"] show ?thesis
    by (simp add: snd_mem_free_def)
next
  case (Some i)
  note fa = find_addr_Some[OF Some]
  from fa have m: "a \<in> addr ` set (pool st)" by (metis imageI nth_mem)
  have "\<not> inuse (pool st ! i)"
  proof
    assume "inuse (pool st ! i)"
    with inuse_reachable[OF assms(1), of "pool st ! i"] fa assms(4) show False by simp
  qed
  with free_block_free_noop[OF naf_reachable[OF assms(1)], of i] fa
  have "free_block i (pool st) = pool st" by simp
  with Some assms(2,3) m show ?thesis by (simp add: snd_mem_free_def)
qed

theorem free_never_returned_witness:
  "run [Init 32 True True True, Malloc 1000 True True] boot
     = Some (ledger [blk 32 1024 True, blk 1056 2096096 False])
   \<and> initted (ledger [blk 32 1024 True, blk 1056 2096096 False])
   \<and> returned [Init 32 True True True, Malloc 1000 True True] boot = [32]
   \<and> snd_mem_free 1056 True (ledger [blk 32 1024 True, blk 1056 2096096 False])
       = Some ([], ledger [blk 32 1024 True, blk 1056 2096096 False])
   \<and> snd_mem_free 64 True (ledger [blk 32 1024 True, blk 1056 2096096 False])
       = Some ([Log_free_nonexistent 0], ledger [blk 32 1024 True, blk 1056 2096096 False])"
proof -
  define L where "L = ledger [blk 32 1024 True, blk 1056 2096096 False]"
  define cs where "cs = [Init 32 True True True, Malloc 1000 True True]"
  have a: "run cs boot = Some L" by (simp add: cs_def L_def eval_defs)
  have b: "initted L" by (simp add: L_def ledger_def)
  have r: "returned cs boot = [32]" by (simp add: cs_def eval_defs)
  have n1: "(1056::32 word) \<noteq> 0" and n2: "(64::32 word) \<noteq> 0" by simp_all
  have m1: "1056 \<notin> set (returned cs boot)" and m2: "64 \<notin> set (returned cs boot)"
    by (simp_all add: r)
  have p1: "1056 \<in> addr ` set (pool L)" and p2: "64 \<notin> addr ` set (pool L)"
    by (simp_all add: L_def ledger_def blk_def)
  from free_never_returned[OF a b n1 m1] p1
  have c: "snd_mem_free 1056 True L = Some ([], L)" by simp
  from free_never_returned[OF a b n2 m2] p2
  have d: "snd_mem_free 64 True L = Some ([Log_free_nonexistent 0], L)" by simp
  show ?thesis
    by (intro conjI a[unfolded L_def cs_def] b[unfolded L_def] r[unfolded cs_def]
        c[unfolded L_def] d[unfolded L_def])
qed

section \<open>Best fit\<close>

lemma split_block_nth:
  assumes "i < length p"
  shows "split_block i s p ! i = (p ! i)\<lparr>size_blk := s, inuse := True\<rparr>"
    and "split_block i s p ! Suc i
           = \<lparr>addr = addr (p ! i) + s, size_blk = size_blk (p ! i) - s, inuse = False\<rparr>"
  using assms by (simp_all add: split_block_def Let_def nth_append)

lemma coverage_split_zero:
  assumes "coverage (xs @ e # ys)"
  shows "coverage (xs @ e\<lparr>size_blk := 0, inuse := True\<rparr>
            # \<lparr>addr = addr e + 0, size_blk = size_blk e - 0, inuse = False\<rparr> # ys)"
  using assms by (cases xs) (auto simp: coverage_chain chain_append)

lemma split_block_zero_not_distinct:
  assumes "i < length p"
  shows "\<not> distinct (map addr (split_block i 0 p))"
proof -
  define xs e ys where "xs = take i p" and "e = p ! i" and "ys = drop (Suc i) p"
  have p: "p = xs @ e # ys" and l: "i = length xs"
    using assms by (simp_all add: xs_def e_def ys_def id_take_nth_drop[symmetric])
  show ?thesis
    unfolding p l split_block_append by simp
qed

lemma coverage_split_block_zero:
  assumes "i < length p" and "coverage p"
  shows "coverage (split_block i 0 p)"
proof -
  define xs e ys where "xs = take i p" and "e = p ! i" and "ys = drop (Suc i) p"
  have p: "p = xs @ e # ys" and l: "i = length xs"
    using assms(1) by (simp_all add: xs_def e_def ys_def id_take_nth_drop[symmetric])
  from assms(2) show ?thesis
    unfolding p l split_block_append by (rule coverage_split_zero)
qed













text \<open>
  C5, as the claim states it, fails: the scan takes an extent only if it is smaller
  than the initial \<^verbatim>\<open>best_size\<close> of 4 MiB. After \<^verbatim>\<open>snd_mem_init(2097184)\<close> the only extent
  is free and has 4294967264 bytes, at least the rounded request of 32, and
  \<^verbatim>\<open>snd_mem_malloc(32)\<close> finds no block and returns 0.
\<close>

theorem candidates_counterexample:
  "snd_mem_init 2097184 True True True boot = (None, ledger [blk 2097184 4294967264 False])
   \<and> \<not> inuse (blk 2097184 4294967264 False)
   \<and> align32 32 \<le> size_blk (blk 2097184 4294967264 False)
   \<and> snd_mem_malloc 32 True True (ledger [blk 2097184 4294967264 False])
       = Some (0, [Log_no_chunks 32], ledger [blk 2097184 4294967264 False])"
  by (simp add: eval_defs)

text \<open>
  C5, amended. On an initialised pool, for a nonzero size and with the lock taken,
  the candidates are the free extents of at least the rounded request and less than
  4 MiB. Without a candidate the call logs "no chunks", returns 0 and leaves the
  state as it is. With a candidate there is exactly one best fit: a candidate no
  larger than any candidate and smaller than every candidate before it in the
  ledger; the call marks it in use if its size is the rounded request, otherwise
  splits it, and returns its address (or 0, with the state unchanged, when it has to
  split and obtains no record). Whatever the lock and memory outcomes, a nonzero
  returned offset is the address of the best fit. In a ledger that satisfies
  Coverage no candidate of the same size has a lower address than the best fit.
\<close>

theorem malloc_best_fit:
  assumes "initted st" and "sz \<noteq> 0"
  shows
    "(\<not> list_ex (candidate (align32 sz)) (pool st)
        \<longrightarrow> snd_mem_malloc sz True mem_ok st = Some (0, [Log_no_chunks (align32 sz)], st))
   \<and> (list_ex (candidate (align32 sz)) (pool st)
        \<longrightarrow> (\<exists>i. best_fit (align32 sz) (pool st) i
               \<and> (\<forall>j. best_fit (align32 sz) (pool st) j \<longrightarrow> j = i)
               \<and> snd_mem_malloc sz True mem_ok st =
                   (if size_blk (pool st ! i) = align32 sz
                    then Some (addr (pool st ! i), [], st\<lparr>pool := perfect_fit i (pool st)\<rparr>)
                    else if \<not> mem_ok then Some (0, [Log_no_main_memory (align32 sz)], st)
                    else Some (addr (pool st ! i), [],
                               st\<lparr>pool := split_block i (align32 sz) (pool st)\<rparr>))))
   \<and> (\<forall>p ev st'. snd_mem_malloc sz lock_ok mem_ok st = Some (p, ev, st') \<and> p \<noteq> 0
        \<longrightarrow> (\<exists>i. best_fit (align32 sz) (pool st) i \<and> p = addr (pool st ! i)))
   \<and> (coverage (pool st)
        \<longrightarrow> (\<forall>i j. best_fit (align32 sz) (pool st) i \<and> j < length (pool st)
                    \<and> candidate (align32 sz) (pool st ! j)
                    \<and> size_blk (pool st ! j) = size_blk (pool st ! i)
               \<longrightarrow> addr (pool st ! i) \<le> addr (pool st ! j)))"
proof (intro conjI impI allI)
  assume "\<not> list_ex (candidate (align32 sz)) (pool st)"
  then show "snd_mem_malloc sz True mem_ok st = Some (0, [Log_no_chunks (align32 sz)], st)"
    using assms by (rule malloc_no_candidate[rotated 2])
next
  assume "list_ex (candidate (align32 sz)) (pool st)"
  then obtain i where bf: "best_fit (align32 sz) (pool st) i" using best_fit_exists by blast
  show "\<exists>i. best_fit (align32 sz) (pool st) i
          \<and> (\<forall>j. best_fit (align32 sz) (pool st) j \<longrightarrow> j = i)
          \<and> snd_mem_malloc sz True mem_ok st =
              (if size_blk (pool st ! i) = align32 sz
               then Some (addr (pool st ! i), [], st\<lparr>pool := perfect_fit i (pool st)\<rparr>)
               else if \<not> mem_ok then Some (0, [Log_no_main_memory (align32 sz)], st)
               else Some (addr (pool st ! i), [],
                          st\<lparr>pool := split_block i (align32 sz) (pool st)\<rparr>))"
    using bf best_fit_unique[OF _ bf] malloc_on_best_fit[OF assms bf, of mem_ok]
    by (intro exI[of _ i]) blast
next
  fix p ev st'
  assume "snd_mem_malloc sz lock_ok mem_ok st = Some (p, ev, st') \<and> p \<noteq> 0"
  then show "\<exists>i. best_fit (align32 sz) (pool st) i \<and> p = addr (pool st ! i)"
    using malloc_cases[of sz lock_ok mem_ok st p ev st'] by blast
next
  fix i j
  assume cov: "coverage (pool st)"
    and h: "best_fit (align32 sz) (pool st) i \<and> j < length (pool st)
            \<and> candidate (align32 sz) (pool st ! j)
            \<and> size_blk (pool st ! j) = size_blk (pool st ! i)"
  have "i \<le> j"
  proof (rule ccontr)
    assume "\<not> i \<le> j"
    then have "pool st ! j \<in> set (take i (pool st))"
      using h by (auto simp: in_set_conv_nth intro!: exI[of _ j])
    with h have "size_blk (pool st ! i) < size_blk (pool st ! j)"
      by (auto simp: best_fit_def list_all_iff)
    with h show False by simp
  qed
  with cov h show "addr (pool st ! i) \<le> addr (pool st ! j)"
    by (intro coverage_addr_mono) simp_all
qed

theorem malloc_best_fit_witness:
  "initted (ledger [blk 32 128 False, blk 160 32 True, blk 192 64 False, blk 256 32 True,
                    blk 288 64 False, blk 352 2096832 True])
   \<and> (33::32 word) \<noteq> 0
   \<and> list_ex (candidate (align32 33))
        (pool (ledger [blk 32 128 False, blk 160 32 True, blk 192 64 False, blk 256 32 True,
                       blk 288 64 False, blk 352 2096832 True]))
   \<and> best_fit (align32 33)
        (pool (ledger [blk 32 128 False, blk 160 32 True, blk 192 64 False, blk 256 32 True,
                       blk 288 64 False, blk 352 2096832 True])) 2
   \<and> snd_mem_malloc 33 True True
        (ledger [blk 32 128 False, blk 160 32 True, blk 192 64 False, blk 256 32 True,
                 blk 288 64 False, blk 352 2096832 True])
      = Some (192, [],
          ledger [blk 32 128 False, blk 160 32 True, blk 192 64 True, blk 256 32 True,
                  blk 288 64 False, blk 352 2096832 True])"
proof -
  define L where "L = ledger [blk 32 128 False, blk 160 32 True, blk 192 64 False,
    blk 256 32 True, blk 288 64 False, blk 352 2096832 True]"
  have a: "initted L" by (simp add: L_def ledger_def)
  have b: "(33::32 word) \<noteq> 0" by simp
  have al: "align32 33 = 64" by (simp add: align32_def)
  have c: "list_ex (candidate (align32 33)) (pool L)"
    by (simp add: al L_def ledger_def blk_def candidate_def)
  have d: "best_fit (align32 33) (pool L) 2"
    by (simp add: al L_def ledger_def blk_def candidate_def best_fit_def)
  note x = malloc_best_fit[OF a b, of True True, THEN conjunct2, THEN conjunct1,
    rule_format, OF c]
  from x obtain i where i: "\<forall>j. best_fit (align32 33) (pool L) j \<longrightarrow> j = i"
      "snd_mem_malloc 33 True True L =
         (if size_blk (pool L ! i) = align32 33
          then Some (addr (pool L ! i), [], L\<lparr>pool := perfect_fit i (pool L)\<rparr>)
          else if \<not> True then Some (0, [Log_no_main_memory (align32 33)], L)
          else Some (addr (pool L ! i), [], L\<lparr>pool := split_block i (align32 33) (pool L)\<rparr>))"
    by (elim exE conjE) (rule that)
  from i(1) d have "i = 2" by blast
  with i(2) have e: "snd_mem_malloc 33 True True L
      = Some (192, [],
          ledger [blk 32 128 False, blk 160 32 True, blk 192 64 True, blk 256 32 True,
                  blk 288 64 False, blk 352 2096832 True])"
    by (simp add: al L_def ledger_def blk_def perfect_fit_def)
  show ?thesis
    by (intro conjI a[unfolded L_def] b c[unfolded L_def] d[unfolded L_def] e[unfolded L_def])
qed

section \<open>Requests that round to zero\<close>

text \<open>
  C10, as the claim states it, fails: after \<^verbatim>\<open>snd_mem_init(2097184)\<close> the pool is
  initialised and its one extent is free, but has 4294967264 bytes, not less than
  the initial \<^verbatim>\<open>best_size\<close>; for the request of \<open>2^32 - 1\<close> bytes, rounded to 0, the scan
  finds no block and the call fails with the "no chunks" message and returns 0.
\<close>

theorem wrapped_size_counterexample:
  "snd_mem_init 2097184 True True True boot = (None, ledger [blk 2097184 4294967264 False])
   \<and> \<not> inuse (blk 2097184 4294967264 False)
   \<and> align32 0xFFFFFFFF = 0
   \<and> snd_mem_malloc 0xFFFFFFFF True True (ledger [blk 2097184 4294967264 False])
       = Some (0, [Log_no_chunks 0], ledger [blk 2097184 4294967264 False])"
  by (simp add: eval_defs)

text \<open>
  C10, amended. A requested size in \<open>[2^32 - 31, 2^32 - 1]\<close> is rounded to 0. On an
  initialised pool with at least one free extent of less than 4 MiB, with the lock
  taken and a record obtained, the call does not fail: it takes the best fit for 0
  bytes, the smallest such extent, and returns its address. If that extent has
  size 0 it is marked in use; otherwise it is cut to size 0 and marked in use, and
  a free extent of its whole former size is inserted behind it at the same address.
  After such a split two extents of the ledger have the same address, while each
  extent still ends where the next begins: Coverage, if it held, holds afterwards.
\<close>

theorem malloc_size_wraps:
  assumes "initted st" and "4294967265 \<le> unat sz" and "list_ex (candidate 0) (pool st)"
  shows "align32 sz = 0 \<and>
     (\<exists>i. best_fit 0 (pool st) i
        \<and> snd_mem_malloc sz True True st
            = Some (addr (pool st ! i), [],
                    st\<lparr>pool := if size_blk (pool st ! i) = 0 then perfect_fit i (pool st)
                               else split_block i 0 (pool st)\<rparr>)
        \<and> split_block i 0 (pool st) ! i = blk (addr (pool st ! i)) 0 True
        \<and> split_block i 0 (pool st) ! Suc i
            = blk (addr (pool st ! i)) (size_blk (pool st ! i)) False
        \<and> \<not> distinct (map addr (split_block i 0 (pool st)))
        \<and> (coverage (pool st) \<longrightarrow> coverage (split_block i 0 (pool st))))"
proof -
  have al: "align32 sz = 0" using assms(2) by (rule align32_wrap)
  from assms(2) have nz: "sz \<noteq> 0" by auto
  from assms(3) obtain i where bf: "best_fit 0 (pool st) i" using best_fit_exists by blast
  from best_fit_props[OF bf] have il: "i < length (pool st)" by simp
  have m: "snd_mem_malloc sz True True st
            = Some (addr (pool st ! i), [],
                    st\<lparr>pool := if size_blk (pool st ! i) = 0 then perfect_fit i (pool st)
                               else split_block i 0 (pool st)\<rparr>)"
    using malloc_on_best_fit[of st sz i True] assms(1) nz bf by (simp add: al)
  have n: "split_block i 0 (pool st) ! i = blk (addr (pool st ! i)) 0 True"
    "split_block i 0 (pool st) ! Suc i = blk (addr (pool st ! i)) (size_blk (pool st ! i)) False"
    using split_block_nth[OF il, of 0] by (simp_all add: blk_def)
  note d = split_block_zero_not_distinct[OF il]
  have c: "coverage (pool st) \<longrightarrow> coverage (split_block i 0 (pool st))"
    using coverage_split_block_zero[OF il] by blast
  show ?thesis by (intro conjI exI[of _ i] al bf m n d c)
qed

theorem malloc_size_wraps_witness:
  "initted (ledger [blk 32 2097120 False]) \<and> 4294967265 \<le> unat (0xFFFFFFFF :: 32 word)
   \<and> list_ex (candidate 0) (pool (ledger [blk 32 2097120 False]))
   \<and> best_fit 0 (pool (ledger [blk 32 2097120 False])) 0
   \<and> snd_mem_malloc 0xFFFFFFFF True True (ledger [blk 32 2097120 False])
       = Some (32, [], ledger [blk 32 0 True, blk 32 2097120 False])"
proof -
  define L where "L = ledger [blk 32 2097120 False]"
  have a: "initted L" by (simp add: L_def ledger_def)
  have b: "4294967265 \<le> unat (0xFFFFFFFF :: 32 word)" by simp
  have c: "list_ex (candidate 0) (pool L)" by (simp add: L_def ledger_def blk_def candidate_def)
  have d: "best_fit 0 (pool L) 0"
    by (simp add: L_def ledger_def blk_def candidate_def best_fit_def)
  note x = malloc_size_wraps[OF a b c, THEN conjunct2]
  from x obtain i where i: "best_fit 0 (pool L) i"
    "snd_mem_malloc 0xFFFFFFFF True True L
       = Some (addr (pool L ! i), [],
               L\<lparr>pool := if size_blk (pool L ! i) = 0 then perfect_fit i (pool L)
                          else split_block i 0 (pool L)\<rparr>)"
    by (elim exE conjE) (rule that)
  from best_fit_unique[OF i(1) d] have "i = 0" .
  with i(2) have e: "snd_mem_malloc 0xFFFFFFFF True True L
       = Some (32, [], ledger [blk 32 0 True, blk 32 2097120 False])"
    by (simp add: L_def ledger_def blk_def split_block_def)
  show ?thesis
    by (intro conjI a[unfolded L_def] b c[unfolded L_def] d[unfolded L_def] e[unfolded L_def])
qed

end
